theory Spec2Isabelle
  imports Main "HOL-Library.AList"
begin

section \<open>Python values used by main.py\<close>

text \<open>
  A Python \<open>str\<close> is modelled as a \<open>string\<close>: ASCII characters are themselves, any
  other code point stands as its UTF-8 bytes. A Python \<open>int\<close> is an \<open>int\<close>. A Python
  \<open>dict\<close> is an association list in insertion order whose keys are distinct:
  \<open>d[k] = v\<close> is \<open>AList.update k v d\<close> (an existing key keeps its place, a new key
  goes last), \<open>del d[k]\<close> is \<open>AList.delete k d\<close>, \<open>d.get(k)\<close> is \<open>map_of d k\<close>.
  An exception that main.py does not catch is the \<open>Inl\<close> of a sum.
\<close>

datatype py_error = KeyError | ValueError

text \<open>\<open>str(n)\<close> for an integer: decimal digits, a leading minus sign when negative.\<close>

definition digit_char :: "nat \<Rightarrow> char" where
  "digit_char d = char_of (48 + d)"

function str_nat :: "nat \<Rightarrow> string" where
  "str_nat n = (if n < 10 then [digit_char n] else str_nat (n div 10) @ [digit_char (n mod 10)])"
  by pat_completeness auto
termination
  by (relation "measure id") auto

declare str_nat.simps [simp del]

definition str :: "int \<Rightarrow> string" where
  "str i = (if i < 0 then CHR ''-'' # str_nat (nat (- i)) else str_nat (nat i))"

section \<open>The built-in functions int, str.strip and str.lower\<close>

text \<open>
  What \<open>int(s)\<close>, \<open>s.strip()\<close> and \<open>s.lower()\<close> return depends on the Unicode tables
  of the interpreter (which characters are digits, whitespace, cased letters) and, for
  \<open>int\<close>, on its limit on the number of digits. They are therefore parameters of the
  model: a record of three functions, passed to every function of main.py that calls
  one of them. \<open>None\<close> from \<open>py_int\<close> is the \<open>ValueError\<close> of \<open>int\<close>.
\<close>

record builtins =
  py_int :: "string \<Rightarrow> int option"
  py_strip :: "string \<Rightarrow> string"
  py_lower :: "string \<Rightarrow> string"

text \<open>
  On ASCII text the three functions are known, and are the following.
  \<open>s.strip()\<close> removes from both ends the characters 09 to 0D, 1C to 1F and the space.
\<close>

definition is_space :: "char \<Rightarrow> bool" where
  "is_space c = (let n = (of_char c :: nat) in (9 \<le> n \<and> n \<le> 13) \<or> (28 \<le> n \<and> n \<le> 32))"

definition ascii_strip :: "string \<Rightarrow> string" where
  "ascii_strip s = rev (dropWhile is_space (rev (dropWhile is_space s)))"

text \<open>\<open>s.lower()\<close> replaces the letters A to Z by a to z and leaves every other character.\<close>

definition ascii_lower_char :: "char \<Rightarrow> char" where
  "ascii_lower_char c =
     (let n = (of_char c :: nat) in if 65 \<le> n \<and> n \<le> 90 then char_of (n + 32) else c)"

definition ascii_lower :: "string \<Rightarrow> string" where
  "ascii_lower s = map ascii_lower_char s"

text \<open>
  \<open>int(s)\<close> skips, at both ends, the characters 09 to 0D and the space (a smaller set
  than that of \<open>strip\<close>), then reads an optional sign and decimal digits, where one
  underscore may stand between two digits.
\<close>

definition is_space_int :: "char \<Rightarrow> bool" where
  "is_space_int c = (let n = (of_char c :: nat) in (9 \<le> n \<and> n \<le> 13) \<or> n = 32)"

definition is_digit :: "char \<Rightarrow> bool" where
  "is_digit c = (let n = (of_char c :: nat) in 48 \<le> n \<and> n \<le> 57)"

definition digit_val :: "char \<Rightarrow> nat" where
  "digit_val c = of_char c - 48"

fun int_digits :: "nat \<Rightarrow> string \<Rightarrow> nat option" where
  "int_digits acc [] = None"
| "int_digits acc [c] = (if is_digit c then Some (10 * acc + digit_val c) else None)"
| "int_digits acc (c # d # cs) =
     (if is_digit c then
        (if d = CHR ''_'' then int_digits (10 * acc + digit_val c) cs
         else int_digits (10 * acc + digit_val c) (d # cs))
      else None)"

definition ascii_int :: "string \<Rightarrow> int option" where
  "ascii_int s =
     (case rev (dropWhile is_space_int (rev (dropWhile is_space_int s))) of
        [] \<Rightarrow> None
      | c # cs \<Rightarrow>
          if c = CHR ''-'' then map_option (\<lambda>n. - int n) (int_digits 0 cs)
          else if c = CHR ''+'' then map_option int (int_digits 0 cs)
          else map_option int (int_digits 0 (c # cs)))"

definition ascii_builtins :: builtins where
  "ascii_builtins = \<lparr>py_int = ascii_int, py_strip = ascii_strip, py_lower = ascii_lower\<rparr>"

text \<open>
  The built-in functions agree with these on every ASCII string; for \<open>int\<close> this is
  asked of strings of at most 640 characters, below every setting of its limit on the
  number of digits.
\<close>

definition is_ascii :: "string \<Rightarrow> bool" where
  "is_ascii s = list_all (\<lambda>c. (of_char c :: nat) < 128) s"

definition agrees_on_ascii :: "builtins \<Rightarrow> bool" where
  "agrees_on_ascii P \<longleftrightarrow>
     (\<forall>s. is_ascii s \<longrightarrow>
        py_strip P s = ascii_strip s \<and> py_lower P s = ascii_lower s \<and>
        (length s \<le> 640 \<longrightarrow> py_int P s = ascii_int s))"

text \<open>
  Two ASCII strings that differ at most in the case of their letters.
\<close>

definition same_letter :: "char \<Rightarrow> char \<Rightarrow> bool" where
  "same_letter c d =
     (let m = (of_char c :: nat); n = (of_char d :: nat) in
      m = n \<or> (65 \<le> m \<and> m \<le> 90 \<and> n = m + 32) \<or> (65 \<le> n \<and> n \<le> 90 \<and> m = n + 32))"

definition caseless_eq :: "string \<Rightarrow> string \<Rightarrow> bool" where
  "caseless_eq s t = list_all2 same_letter s t"

section \<open>The classes Book and Library\<close>

text \<open>
  \<open>book_dict\<close> is the dictionary stored under \<open>lib_data["books"][str(id)]\<close>; a \<open>Book\<close>
  object has the same four attributes and its \<open>id\<close>.
\<close>

record book_dict =
  title :: string
  author :: string
  year :: string
  status :: string

record Book = book_dict +
  book_id :: int

text \<open>\<open>Library.lib_data\<close>: the document that is kept in memory and written to the file.\<close>

record lib_data =
  current_id :: int
  books :: "(string \<times> book_dict) list"
  years :: "(string \<times> int list) list"
  authors :: "(string \<times> int list) list"

definition Available :: string where
  "Available = ''Available''"

text \<open>
  The second status of main.py is spelled with U+0421 (a Cyrillic capital letter) in
  place of the Latin C; in UTF-8 that letter is the bytes D0 A1.
\<close>

definition Checked_out :: string where
  "Checked_out = CHR 0xD0 # CHR 0xA1 # ''hecked out''"

text \<open>\<open>Library.__init__\<close> on a new file: the document it writes and loads.\<close>

definition start_data :: lib_data where
  "start_data = \<lparr>current_id = 0, books = [], years = [], authors = []\<rparr>"

text \<open>The index update of \<open>add_book\<close>: append to the key's list, or start a list.\<close>

definition index_add :: "string \<Rightarrow> int \<Rightarrow> (string \<times> int list) list \<Rightarrow> (string \<times> int list) list" where
  "index_add k i idx =
     (case map_of idx k of
        Some ids \<Rightarrow> AList.update k (ids @ [i]) idx
      | None \<Rightarrow> AList.update k [i] idx)"

definition add_book :: "lib_data \<Rightarrow> string \<Rightarrow> string \<Rightarrow> string \<Rightarrow> lib_data \<times> Book" where
  "add_book lib t a y =
     (let new_book_id = current_id lib + 1;
          new_book = \<lparr>title = t, author = a, year = y, status = Available, book_id = new_book_id\<rparr>;
          lib1 = lib\<lparr>books := AList.update (str (book_id new_book))
                     \<lparr>title = title new_book, author = author new_book,
                      year = year new_book, status = status new_book\<rparr> (books lib)\<rparr>;
          lib2 = lib1\<lparr>current_id := book_id new_book\<rparr>;
          lib3 = lib2\<lparr>years := index_add (year new_book) (book_id new_book) (years lib2)\<rparr>;
          lib4 = lib3\<lparr>authors := index_add (author new_book) (book_id new_book) (authors lib3)\<rparr>
      in (lib4, new_book))"

text \<open>
  The index update of \<open>delete_book\<close>: \<open>idx[k].remove(i)\<close>, then \<open>del idx[k]\<close> when the
  list is empty. A missing key is a \<open>KeyError\<close>, a missing id a \<open>ValueError\<close>.
\<close>

definition index_remove :: "string \<Rightarrow> int \<Rightarrow> (string \<times> int list) list \<Rightarrow> py_error + (string \<times> int list) list" where
  "index_remove k i idx =
     (case map_of idx k of
        None \<Rightarrow> Inl KeyError
      | Some ids \<Rightarrow>
          if i \<notin> set ids then Inl ValueError
          else if remove1 i ids = [] then Inr (AList.delete k idx)
          else Inr (AList.update k (remove1 i ids) idx))"

definition delete_book :: "lib_data \<Rightarrow> Book \<Rightarrow> py_error + lib_data" where
  "delete_book lib book =
     (case map_of (books lib) (str (book_id book)) of
        None \<Rightarrow> Inl KeyError
      | Some _ \<Rightarrow>
          let lib1 = lib\<lparr>books := AList.delete (str (book_id book)) (books lib)\<rparr> in
          (case index_remove (year book) (book_id book) (years lib1) of
             Inl e \<Rightarrow> Inl e
           | Inr ys \<Rightarrow>
               let lib2 = lib1\<lparr>years := ys\<rparr> in
               (case index_remove (author book) (book_id book) (authors lib2) of
                  Inl e \<Rightarrow> Inl e
                | Inr as \<Rightarrow> Inr (lib2\<lparr>authors := as\<rparr>))))"

definition get_all_books :: "lib_data \<Rightarrow> (string \<times> book_dict) list" where
  "get_all_books lib = books lib"

text \<open>
  The loop of \<open>search_by_author_or_year\<close>: \<open>rez_books[book] = books[str(book)]\<close> for
  each id of the index list; an id without a record is a \<open>KeyError\<close>.
\<close>

fun rez_books_loop :: "lib_data \<Rightarrow> int list \<Rightarrow> (int \<times> book_dict) list \<Rightarrow> py_error + (int \<times> book_dict) list" where
  "rez_books_loop lib [] rez = Inr rez"
| "rez_books_loop lib (book # rest) rez =
     (case map_of (books lib) (str book) of
        None \<Rightarrow> Inl KeyError
      | Some b \<Rightarrow> rez_books_loop lib rest (AList.update book b rez))"

definition search_by_author_or_year :: "lib_data \<Rightarrow> string \<Rightarrow> string \<Rightarrow> py_error + (int \<times> book_dict) list" where
  "search_by_author_or_year lib v criteria =
     (let found_books = [];
          found_books = (if criteria = ''author''
                         then (case map_of (authors lib) v of Some ids \<Rightarrow> ids | None \<Rightarrow> [])
                         else found_books);
          found_books = (if criteria = ''year''
                         then (case map_of (years lib) v of Some ids \<Rightarrow> ids | None \<Rightarrow> [])
                         else found_books)
      in rez_books_loop lib found_books [])"

text \<open>
  The loop of \<open>search_by_title\<close> over the records in the dictionary's order; the
  record read under each key is the one the key is paired with.
\<close>

fun res_books_loop :: "builtins \<Rightarrow> string \<Rightarrow> (string \<times> book_dict) list \<Rightarrow> (string \<times> book_dict) list \<Rightarrow> (string \<times> book_dict) list" where
  "res_books_loop P t [] res = res"
| "res_books_loop P t ((k, b) # rest) res =
     res_books_loop P t rest (if py_lower P (title b) = py_lower P t then AList.update k b res else res)"

definition search_by_title :: "builtins \<Rightarrow> lib_data \<Rightarrow> string \<Rightarrow> (string \<times> book_dict) list" where
  "search_by_title P lib t = res_books_loop P t (books lib) []"

definition search_by_id :: "lib_data \<Rightarrow> string \<Rightarrow> book_dict option" where
  "search_by_id lib i = map_of (books lib) i"

definition change_book_status :: "lib_data \<Rightarrow> Book \<Rightarrow> string \<Rightarrow> py_error + lib_data" where
  "change_book_status lib book new_status =
     (case map_of (books lib) (str (book_id book)) of
        None \<Rightarrow> Inl KeyError
      | Some b \<Rightarrow> Inr (lib\<lparr>books := AList.update (str (book_id book)) (b\<lparr>status := new_status\<rparr>) (books lib)\<rparr>))"

section \<open>The functions of the menu\<close>

text \<open>
  The menu functions read their input with \<open>input()\<close>; here each line that is read
  is an argument, and the calendar year of \<open>datetime.datetime.now()\<close> is the
  argument \<open>now\<close>. The first argument \<open>P\<close> is the record of the built-in functions.
  The value of type \<open>outcome\<close> names the message that is printed.
\<close>

datatype outcome =
    TitleEmpty
  | AuthorEmpty
  | YearNotDigits
  | YearOutOfRange
  | Added Book
  | IncorrectId
  | NotFound int
  | NoDecision
  | Deleted int
  | Cancelled int
  | OtherDecision
  | StatusChanged int string
  | IncorrectInput

definition check_input :: "builtins \<Rightarrow> int \<Rightarrow> string \<Rightarrow> int" where
  "check_input P start_value inp = (case py_int P inp of None \<Rightarrow> start_value | Some v \<Rightarrow> v)"

definition add :: "builtins \<Rightarrow> lib_data \<Rightarrow> int \<Rightarrow> string \<Rightarrow> string \<Rightarrow> string \<Rightarrow> lib_data \<times> outcome" where
  "add P lib now title_in author_in year_in =
     (let t = py_strip P title_in in
      if t = [] then (lib, TitleEmpty)
      else
        let a = py_strip P author_in in
        if a = [] then (lib, AuthorEmpty)
        else
          let y = py_strip P year_in in
          (case py_int P y of
             None \<Rightarrow> (lib, YearNotDigits)
           | Some int_year \<Rightarrow>
               if int_year < 868 \<or> int_year > now then (lib, YearOutOfRange)
               else (case add_book lib t a y of (lib', new_book) \<Rightarrow> (lib', Added new_book))))"

definition delete :: "builtins \<Rightarrow> lib_data \<Rightarrow> string \<Rightarrow> string \<Rightarrow> py_error + lib_data \<times> outcome" where
  "delete P lib id_in decision_in =
     (case py_int P (py_strip P id_in) of
        None \<Rightarrow> Inr (lib, IncorrectId)
      | Some i \<Rightarrow>
          (case search_by_id lib (str i) of
             None \<Rightarrow> Inr (lib, NotFound i)
           | Some found \<Rightarrow>
               let book = \<lparr>title = title found, author = author found, year = year found,
                           status = status found, book_id = i\<rparr>;
                   decision = check_input P 0 decision_in
               in if decision = 0 then Inr (lib, NoDecision)
                  else if decision = 1 then
                    (case delete_book lib book of
                       Inl e \<Rightarrow> Inl e
                     | Inr lib' \<Rightarrow> Inr (lib', Deleted i))
                  else if decision = 2 then Inr (lib, Cancelled i)
                  else Inr (lib, OtherDecision)))"

text \<open>
  In \<open>change_status\<close> the second \<open>int(input(...))\<close> stands outside any \<open>try\<close>: a
  choice that is not a number is a \<open>ValueError\<close> that nothing catches.
\<close>

definition change_status :: "builtins \<Rightarrow> lib_data \<Rightarrow> string \<Rightarrow> string \<Rightarrow> py_error + lib_data \<times> outcome" where
  "change_status P lib id_in choice_in =
     (case py_int P id_in of
        None \<Rightarrow> Inr (lib, IncorrectId)
      | Some i \<Rightarrow>
          (case search_by_id lib (str i) of
             None \<Rightarrow> Inr (lib, NotFound i)
           | Some found \<Rightarrow>
               let book = \<lparr>title = title found, author = author found, year = year found,
                           status = status found, book_id = i\<rparr>
               in (case py_int P choice_in of
                     None \<Rightarrow> Inl ValueError
                   | Some choice \<Rightarrow>
                       if choice = 1 then
                         (case change_book_status lib book Available of
                            Inl e \<Rightarrow> Inl e
                          | Inr lib' \<Rightarrow> Inr (lib', StatusChanged i Available))
                       else if choice = 2 then
                         (case change_book_status lib book Checked_out of
                            Inl e \<Rightarrow> Inl e
                          | Inr lib' \<Rightarrow> Inr (lib', StatusChanged i Checked_out))
                       else Inr (lib, IncorrectInput))))"

text \<open>
  The loop of \<open>main\<close>, for the three menu entries that change the library (entries 3
  and 4 only read it): a session is the list of the entries chosen, each with the
  lines typed into it. An uncaught exception ends the session.
\<close>

datatype command =
    Choice1 int string string string
  | Choice2 string string
  | Choice5 string string

fun step :: "builtins \<Rightarrow> lib_data \<Rightarrow> command \<Rightarrow> py_error + lib_data \<times> outcome" where
  "step P lib (Choice1 now title_in author_in year_in) = Inr (add P lib now title_in author_in year_in)"
| "step P lib (Choice2 id_in decision_in) = delete P lib id_in decision_in"
| "step P lib (Choice5 id_in choice_in) = change_status P lib id_in choice_in"

fun run :: "builtins \<Rightarrow> lib_data \<Rightarrow> command list \<Rightarrow> py_error + lib_data \<times> outcome list" where
  "run P lib [] = Inr (lib, [])"
| "run P lib (c # cs) =
     (case step P lib c of
        Inl e \<Rightarrow> Inl e
      | Inr (lib', out) \<Rightarrow>
          (case run P lib' cs of
             Inl e \<Rightarrow> Inl e
           | Inr (lib'', outs) \<Rightarrow> Inr (lib'', out # outs)))"

text \<open>The ids of the books that a session has added, in the order of their creation.\<close>

fun issued :: "outcome list \<Rightarrow> int list" where
  "issued [] = []"
| "issued (Added b # outs) = book_id b # issued outs"
| "issued (_ # outs) = issued outs"

section \<open>Consistency of the indexes\<close>

text \<open>
  One index (\<open>years\<close> or \<open>authors\<close>, with \<open>fld\<close> the field it is built on) agrees
  with the records: its keys are distinct, no list is empty or repeats an id, every id
  in the list of a key is at most \<open>current_id\<close> and names a record whose field is that
  key, and every record is named by an id in the list of its field.
\<close>

definition index_ok :: "(book_dict \<Rightarrow> string) \<Rightarrow> (string \<times> book_dict) list \<Rightarrow> int \<Rightarrow> (string \<times> int list) list \<Rightarrow> bool" where
  "index_ok fld bks cur idx \<longleftrightarrow>
     distinct (map fst idx) \<and>
     (\<forall>(k, ids) \<in> set idx. ids \<noteq> [] \<and> distinct ids \<and>
        (\<forall>i \<in> set ids. i \<le> cur \<and> map_option fld (map_of bks (str i)) = Some k)) \<and>
     (\<forall>(key, b) \<in> set bks.
        (case map_of idx (fld b) of Some ids \<Rightarrow> \<exists>i \<in> set ids. str i = key | None \<Rightarrow> False))"

definition consistent :: "lib_data \<Rightarrow> bool" where
  "consistent lib \<longleftrightarrow>
     distinct (map fst (books lib)) \<and>
     index_ok year (books lib) (current_id lib) (years lib) \<and>
     index_ok author (books lib) (current_id lib) (authors lib)"

text \<open>The same agreement, read on the lookup functions of the two dictionaries.\<close>

definition idx_rel :: "(book_dict \<Rightarrow> string) \<Rightarrow> (string \<rightharpoonup> book_dict) \<Rightarrow> int \<Rightarrow> (string \<rightharpoonup> int list) \<Rightarrow> bool" where
  "idx_rel fld bm cur im \<longleftrightarrow>
     (\<forall>k ids. im k = Some ids \<longrightarrow> ids \<noteq> [] \<and> distinct ids \<and>
        (\<forall>i \<in> set ids. i \<le> cur \<and> (\<exists>b. bm (str i) = Some b \<and> fld b = k))) \<and>
     (\<forall>key b. bm key = Some b \<longrightarrow>
        (\<exists>ids i. im (fld b) = Some ids \<and> i \<in> set ids \<and> str i = key))"

text \<open>Every record has one of the two statuses that main.py writes.\<close>

definition status_ok :: "lib_data \<Rightarrow> bool" where
  "status_ok lib \<longleftrightarrow> (\<forall>(k, b) \<in> set (books lib). status b = Available \<or> status b = Checked_out)"

section \<open>The file of a library\<close>

text \<open>
  \<open>save_data\<close> writes \<open>lib_data\<close> with \<open>json.dump(..., ensure_ascii=False, indent=4)\<close>
  and \<open>Library.__init__\<close> reads the file with \<open>json.load\<close>. The values in such a
  document are integers, strings, lists, and dictionaries with string keys. The text of
  the file is a \<open>string\<close> as everywhere here. The encoding of that text to the bytes
  of the file and back is not modelled: main.py writes with UTF-8 and reads with the
  default encoding of the platform.
\<close>

datatype json = JInt int | JStr string | JList "json list" | JDict "(string \<times> json) list"

text \<open>\<open>json.dump\<close>: the escapes of a string, then the layout with an indent of four.\<close>

definition dquote :: char where "dquote = CHR 0x22"
definition backslash :: char where "backslash = CHR 0x5C"
definition newline :: char where "newline = CHR 0x0A"

definition hex_digit :: "nat \<Rightarrow> char" where
  "hex_digit n = (if n < 10 then char_of (48 + n) else char_of (87 + n))"

definition escape_char :: "char \<Rightarrow> string" where
  "escape_char c =
     (if c = dquote then [backslash, dquote]
      else if c = backslash then [backslash, backslash]
      else if c = newline then [backslash, CHR ''n'']
      else if c = CHR 0x0D then [backslash, CHR ''r'']
      else if c = CHR 0x09 then [backslash, CHR ''t'']
      else if c = CHR 0x08 then [backslash, CHR ''b'']
      else if c = CHR 0x0C then [backslash, CHR ''f'']
      else if (of_char c :: nat) < 32
        then [backslash, CHR ''u'', CHR ''0'', CHR ''0'',
              hex_digit (of_char c div 16), hex_digit (of_char c mod 16)]
      else [c])"

definition encode_basestring :: "string \<Rightarrow> string" where
  "encode_basestring s = dquote # concat (map escape_char s) @ [dquote]"

definition newline_indent :: "nat \<Rightarrow> string" where
  "newline_indent level = newline # replicate (4 * level) CHR '' ''"

fun join :: "string \<Rightarrow> string list \<Rightarrow> string" where
  "join sep [] = []"
| "join sep [x] = x"
| "join sep (x # y # ys) = x @ sep @ join sep (y # ys)"

fun dumps :: "nat \<Rightarrow> json \<Rightarrow> string" where
  "dumps level (JInt i) = str i"
| "dumps level (JStr s) = encode_basestring s"
| "dumps level (JList xs) =
     (if xs = [] then ''[]''
      else ''['' @ newline_indent (Suc level) @
           join ('','' @ newline_indent (Suc level)) (map (dumps (Suc level)) xs) @
           newline_indent level @ '']'')"
| "dumps level (JDict kvs) =
     (if kvs = [] then ''{}''
      else ''{'' @ newline_indent (Suc level) @
           join ('','' @ newline_indent (Suc level))
             (map (\<lambda>kv. encode_basestring (fst kv) @ '': '' @ dumps (Suc level) (snd kv)) kvs) @
           newline_indent level @ ''}'')"

text \<open>The document that \<open>lib_data\<close> is: the four keys in the order of their insertion.\<close>

definition book_json :: "book_dict \<Rightarrow> json" where
  "book_json b =
     JDict [(''title'', JStr (title b)), (''author'', JStr (author b)),
            (''year'', JStr (year b)), (''status'', JStr (status b))]"

definition index_json :: "(string \<times> int list) list \<Rightarrow> json" where
  "index_json idx = JDict (map (\<lambda>kv. (fst kv, JList (map JInt (snd kv)))) idx)"

definition lib_json :: "lib_data \<Rightarrow> json" where
  "lib_json lib =
     JDict [(''current_id'', JInt (current_id lib)),
            (''books'', JDict (map (\<lambda>kv. (fst kv, book_json (snd kv))) (books lib))),
            (''years'', index_json (years lib)),
            (''authors'', index_json (authors lib))]"

definition save_data :: "lib_data \<Rightarrow> string" where
  "save_data lib = dumps 0 (lib_json lib)"

text \<open>
  \<open>json.load\<close>, for the documents above. Other JSON values (numbers with a fraction
  or an exponent, \<open>true\<close>, \<open>false\<close>, \<open>null\<close>) and \<open>\u\<close> escapes beyond 007f, which
  \<open>save_data\<close> never writes, are outside the model and give \<open>None\<close>, as a text that
  is no JSON does. The recursion is bounded by the first argument; \<open>loads\<close> starts it
  with more than the length of the text.
\<close>

definition is_ws :: "char \<Rightarrow> bool" where
  "is_ws c \<longleftrightarrow> c = CHR '' '' \<or> c = CHR 0x09 \<or> c = newline \<or> c = CHR 0x0D"

definition skip_ws :: "string \<Rightarrow> string" where
  "skip_ws s = dropWhile is_ws s"

definition hex_val :: "char \<Rightarrow> nat option" where
  "hex_val c =
     (let n = (of_char c :: nat) in
      if 48 \<le> n \<and> n \<le> 57 then Some (n - 48)
      else if 97 \<le> n \<and> n \<le> 102 then Some (n - 87)
      else if 65 \<le> n \<and> n \<le> 70 then Some (n - 55)
      else None)"

definition unescape :: "char \<Rightarrow> char option" where
  "unescape e =
     (if e = dquote then Some dquote
      else if e = backslash then Some backslash
      else if e = CHR ''/'' then Some CHR ''/''
      else if e = CHR ''b'' then Some (CHR 0x08)
      else if e = CHR ''f'' then Some (CHR 0x0C)
      else if e = CHR ''n'' then Some newline
      else if e = CHR ''r'' then Some (CHR 0x0D)
      else if e = CHR ''t'' then Some (CHR 0x09)
      else None)"

definition unicode_escape :: "string \<Rightarrow> char option" where
  "unicode_escape hs =
     (case map hex_val hs of
        [Some a, Some b, Some c, Some d] \<Rightarrow>
          if a = 0 \<and> b = 0 \<and> c < 8 then Some (char_of (16 * c + d)) else None
      | _ \<Rightarrow> None)"

fun scanstring :: "string \<Rightarrow> string \<Rightarrow> (string \<times> string) option" where
  "scanstring acc [] = None"
| "scanstring acc (c # cs) =
     (if c = dquote then Some (acc, cs)
      else if c = backslash then
        (case cs of
           [] \<Rightarrow> None
         | e # es \<Rightarrow>
             if e = CHR ''u'' then
               (case unicode_escape (take 4 es) of
                  None \<Rightarrow> None
                | Some ch \<Rightarrow> scanstring (acc @ [ch]) (drop 4 es))
             else
               (case unescape e of
                  None \<Rightarrow> None
                | Some ch \<Rightarrow> scanstring (acc @ [ch]) es))
      else if (of_char c :: nat) < 32 then None
      else scanstring (acc @ [c]) cs)"

definition digits_val :: "string \<Rightarrow> nat" where
  "digits_val ds = foldl (\<lambda>a c. 10 * a + digit_val c) 0 ds"

definition scan_nat :: "string \<Rightarrow> (nat \<times> string) option" where
  "scan_nat s =
     (let ds = takeWhile is_digit s in
      if ds = [] then None
      else if hd ds = CHR ''0'' then Some (0, tl s)
      else Some (digits_val ds, dropWhile is_digit s))"

definition scan_int :: "string \<Rightarrow> (int \<times> string) option" where
  "scan_int s =
     (case s of
        [] \<Rightarrow> None
      | c # cs \<Rightarrow>
          if c = CHR ''-'' then map_option (\<lambda>nr. (- int (fst nr), snd nr)) (scan_nat cs)
          else map_option (\<lambda>nr. (int (fst nr), snd nr)) (scan_nat s))"

definition float_part :: "string \<Rightarrow> bool" where
  "float_part r \<longleftrightarrow> r \<noteq> [] \<and> (hd r = CHR ''.'' \<or> hd r = CHR ''e'' \<or> hd r = CHR ''E'')"

fun parse_value :: "nat \<Rightarrow> string \<Rightarrow> (json \<times> string) option"
  and parse_elems :: "nat \<Rightarrow> json list \<Rightarrow> string \<Rightarrow> (json list \<times> string) option"
  and parse_members :: "nat \<Rightarrow> (string \<times> json) list \<Rightarrow> string \<Rightarrow> ((string \<times> json) list \<times> string) option"
where
  "parse_value 0 s = None"
| "parse_value (Suc n) s =
     (case skip_ws s of
        [] \<Rightarrow> None
      | c # cs \<Rightarrow>
          if c = dquote then map_option (\<lambda>sr. (JStr (fst sr), snd sr)) (scanstring [] cs)
          else if c = CHR ''{'' then
            (case skip_ws cs of
               [] \<Rightarrow> None
             | d # ds \<Rightarrow> if d = CHR ''}'' then Some (JDict [], ds)
                 else map_option (\<lambda>xr. (JDict (fst xr), snd xr)) (parse_members n [] (d # ds)))
          else if c = CHR ''['' then
            (case skip_ws cs of
               [] \<Rightarrow> None
             | d # ds \<Rightarrow> if d = CHR '']'' then Some (JList [], ds)
                 else map_option (\<lambda>xr. (JList (fst xr), snd xr)) (parse_elems n [] (d # ds)))
          else
            (case scan_int (c # cs) of
               None \<Rightarrow> None
             | Some (i, r) \<Rightarrow> if float_part r then None else Some (JInt i, r)))"
| "parse_elems 0 acc s = None"
| "parse_elems (Suc n) acc s =
     (case parse_value n s of
        None \<Rightarrow> None
      | Some (v, r) \<Rightarrow>
          (case skip_ws r of
             [] \<Rightarrow> None
           | d # ds \<Rightarrow>
               if d = CHR '']'' then Some (acc @ [v], ds)
               else if d = CHR '','' then parse_elems n (acc @ [v]) ds
               else None))"
| "parse_members 0 acc s = None"
| "parse_members (Suc n) acc s =
     (case skip_ws s of
        [] \<Rightarrow> None
      | c # cs \<Rightarrow>
          if c = dquote then
            (case scanstring [] cs of
               None \<Rightarrow> None
             | Some (k, r) \<Rightarrow>
                 (case skip_ws r of
                    [] \<Rightarrow> None
                  | d # ds \<Rightarrow>
                      if d = CHR '':'' then
                        (case parse_value n ds of
                           None \<Rightarrow> None
                         | Some (v, r') \<Rightarrow>
                             (case skip_ws r' of
                                [] \<Rightarrow> None
                              | e # es \<Rightarrow>
                                  if e = CHR ''}'' then Some (AList.update k v acc, es)
                                  else if e = CHR '','' then parse_members n (AList.update k v acc) es
                                  else None))
                      else None))
          else None)"

definition loads :: "string \<Rightarrow> json option" where
  "loads s =
     (case parse_value (Suc (length s)) s of
        None \<Rightarrow> None
      | Some (v, r) \<Rightarrow> if skip_ws r = [] then Some v else None)"

text \<open>
  The loaded document read as \<open>lib_data\<close>: the fields that the methods of \<open>Library\<close>
  look up by name. A missing key or a value of another kind is \<open>None\<close>.
\<close>

fun json_int :: "json \<Rightarrow> int option" where
  "json_int (JInt i) = Some i"
| "json_int _ = None"

fun json_str :: "json \<Rightarrow> string option" where
  "json_str (JStr s) = Some s"
| "json_str _ = None"

fun json_dict :: "json \<Rightarrow> (string \<times> json) list option" where
  "json_dict (JDict kvs) = Some kvs"
| "json_dict _ = None"

fun json_ids :: "json \<Rightarrow> int list option" where
  "json_ids (JList xs) = those (map json_int xs)"
| "json_ids _ = None"

definition field :: "(json \<Rightarrow> 'a option) \<Rightarrow> (string \<times> json) list \<Rightarrow> string \<Rightarrow> 'a option" where
  "field f kvs k = (case map_of kvs k of None \<Rightarrow> None | Some j \<Rightarrow> f j)"

definition json_book :: "json \<Rightarrow> book_dict option" where
  "json_book j =
     (case json_dict j of
        None \<Rightarrow> None
      | Some kvs \<Rightarrow>
          (case (field json_str kvs ''title'', field json_str kvs ''author'',
                 field json_str kvs ''year'', field json_str kvs ''status'') of
             (Some t, Some a, Some y, Some s) \<Rightarrow>
               Some \<lparr>title = t, author = a, year = y, status = s\<rparr>
           | _ \<Rightarrow> None))"

definition json_entries :: "(json \<Rightarrow> 'a option) \<Rightarrow> json \<Rightarrow> (string \<times> 'a) list option" where
  "json_entries f j =
     (case json_dict j of
        None \<Rightarrow> None
      | Some kvs \<Rightarrow> those (map (\<lambda>kv. map_option (Pair (fst kv)) (f (snd kv))) kvs))"

definition json_lib :: "json \<Rightarrow> lib_data option" where
  "json_lib j =
     (case json_dict j of
        None \<Rightarrow> None
      | Some kvs \<Rightarrow>
          (case (field json_int kvs ''current_id'', field (json_entries json_book) kvs ''books'',
                 field (json_entries json_ids) kvs ''years'',
                 field (json_entries json_ids) kvs ''authors'') of
             (Some c, Some bs, Some ys, Some as) \<Rightarrow>
               Some \<lparr>current_id = c, books = bs, years = ys, authors = as\<rparr>
           | _ \<Rightarrow> None))"

text \<open>
  \<open>Library.__init__\<close> on the text of the file: an empty file first gets the start
  document, written by \<open>json.dump\<close> without an indent; then the file is loaded.
\<close>

definition quoted :: "string \<Rightarrow> string" where
  "quoted s = dquote # s @ [dquote]"

definition start_file :: string where
  "start_file =
     ''{'' @ quoted ''current_id'' @ '': 0, '' @ quoted ''books'' @ '': {}, '' @
     quoted ''years'' @ '': {}, '' @ quoted ''authors'' @ '': {}}''"

definition Library_init :: "string \<Rightarrow> lib_data option" where
  "Library_init file =
     (case loads (if file = [] then start_file else file) of
        None \<Rightarrow> None
      | Some j \<Rightarrow> json_lib j)"

text \<open>A document whose dictionaries have distinct keys; what may follow a value in the file.\<close>

fun wf_json :: "json \<Rightarrow> bool" where
  "wf_json (JInt i) = True"
| "wf_json (JStr s) = True"
| "wf_json (JList xs) = (\<forall>x \<in> set xs. wf_json x)"
| "wf_json (JDict kvs) = (distinct (map fst kvs) \<and> (\<forall>kv \<in> set kvs. wf_json (snd kv)))"

definition value_end :: "string \<Rightarrow> bool" where
  "value_end r \<longleftrightarrow> r = [] \<or> hd r = CHR '','' \<or> hd r = newline"

section \<open>A session\<close>

text \<open>
  Three books are added, the first is deleted, and the second is checked out;
  \<open>three_books\<close> is the library after the third add, \<open>session_lib\<close> the library at
  the end.
\<close>

definition session :: "command list" where
  "session =
     [Choice1 2024 ''Dune'' ''Herbert'' ''1965'',
      Choice1 2024 ''Foundation'' ''Asimov'' ''1951'',
      Choice1 2024 ''I, Robot'' ''Asimov'' ''1950'',
      Choice2 ''1'' ''1'',
      Choice5 ''2'' ''2'']"

definition three_books :: lib_data where
  "three_books =
     \<lparr>current_id = 3,
      books = [(''1'', \<lparr>title = ''Dune'', author = ''Herbert'', year = ''1965'', status = Available\<rparr>),
               (''2'', \<lparr>title = ''Foundation'', author = ''Asimov'', year = ''1951'', status = Available\<rparr>),
               (''3'', \<lparr>title = ''I, Robot'', author = ''Asimov'', year = ''1950'', status = Available\<rparr>)],
      years = [(''1965'', [1]), (''1951'', [2]), (''1950'', [3])],
      authors = [(''Herbert'', [1]), (''Asimov'', [2, 3])]\<rparr>"

definition session_lib :: lib_data where
  "session_lib =
     \<lparr>current_id = 3,
      books = [(''2'', \<lparr>title = ''Foundation'', author = ''Asimov'', year = ''1951'', status = Checked_out\<rparr>),
               (''3'', \<lparr>title = ''I, Robot'', author = ''Asimov'', year = ''1950'', status = Available\<rparr>)],
      years = [(''1951'', [2]), (''1950'', [3])],
      authors = [(''Asimov'', [2, 3])]\<rparr>"

definition session_outs :: "outcome list" where
  "session_outs =
     [Added \<lparr>title = ''Dune'', author = ''Herbert'', year = ''1965'', status = Available, book_id = 1\<rparr>,
      Added \<lparr>title = ''Foundation'', author = ''Asimov'', year = ''1951'', status = Available, book_id = 2\<rparr>,
      Added \<lparr>title = ''I, Robot'', author = ''Asimov'', year = ''1950'', status = Available, book_id = 3\<rparr>,
      Deleted 1,
      StatusChanged 2 Checked_out]"

section \<open>Decimal numerals\<close>

text \<open>\<open>str\<close> maps different integers to different strings.\<close>

lemma digit_char_inj: "d < 10 \<Longrightarrow> e < 10 \<Longrightarrow> digit_char d = digit_char e \<Longrightarrow> d = e"
  by (simp add: digit_char_def char_of_eq_iff take_bit_nat_eq_self)

lemma digit_char_not_minus: "d < 10 \<Longrightarrow> digit_char d \<noteq> CHR ''-''"
proof
  assume d: "d < 10" and "digit_char d = CHR ''-''"
  then have "of_char (digit_char d) = (of_char (CHR ''-'') :: nat)" by simp
  with d show False by (simp add: digit_char_def take_bit_nat_eq_self)
qed

lemma str_nat_not_Nil: "str_nat n \<noteq> []"
  by (subst str_nat.simps) simp

lemma str_nat_no_minus: "CHR ''-'' \<notin> set (str_nat n)"
proof (induction n rule: str_nat.induct)
  case (1 n)
  show ?case
  proof (cases "n < 10")
    case True
    then show ?thesis using digit_char_not_minus [of n]
      by (subst str_nat.simps) auto
  next
    case False
    then show ?thesis using 1 digit_char_not_minus [of "n mod 10"]
      by (subst str_nat.simps) auto
  qed
qed

lemma str_nat_inj: "str_nat n = str_nat m \<Longrightarrow> n = m"
proof (induction n arbitrary: m rule: str_nat.induct)
  case (1 n)
  show ?case
  proof (cases "n < 10")
    case n: True
    show ?thesis
    proof (cases "m < 10")
      case True
      with n 1(2) show ?thesis
        by (simp add: str_nat.simps [of n] str_nat.simps [of m] digit_char_inj)
    next
      case False
      with n 1(2) show ?thesis
        by (simp add: str_nat.simps [of n] str_nat.simps [of m] str_nat_not_Nil [symmetric])
    qed
  next
    case n: False
    show ?thesis
    proof (cases "m < 10")
      case True
      with n 1(2) show ?thesis
        by (simp add: str_nat.simps [of n] str_nat.simps [of m] str_nat_not_Nil)
    next
      case False
      with n 1(2) have eq: "str_nat (n div 10) = str_nat (m div 10)"
        and dg: "digit_char (n mod 10) = digit_char (m mod 10)"
        by (simp_all add: str_nat.simps [of n] str_nat.simps [of m])
      from 1(1) [OF n eq] have "n div 10 = m div 10" .
      moreover from dg have "n mod 10 = m mod 10"
        by (intro digit_char_inj) simp_all
      ultimately show ?thesis
        by (metis div_mult_mod_eq)
    qed
  qed
qed

lemma str_inj: "str i = str j \<Longrightarrow> i = j"
proof -
  assume eq: "str i = str j"
  have hd_neg: "\<And>n. hd (str_nat n) \<noteq> CHR ''-''"
    using str_nat_no_minus str_nat_not_Nil by (metis hd_in_set)
  show ?thesis
  proof (cases "i < 0"; cases "j < 0")
    assume "i < 0" "j < 0"
    with eq have "nat (- i) = nat (- j)" by (auto simp: str_def dest: str_nat_inj)
    with \<open>i < 0\<close> \<open>j < 0\<close> show ?thesis by simp
  next
    assume "i < 0" "\<not> j < 0"
    with eq have "CHR ''-'' # str_nat (nat (- i)) = str_nat (nat j)" by (simp add: str_def)
    then have "hd (str_nat (nat j)) = CHR ''-''" by (metis list.sel(1))
    with hd_neg show ?thesis by blast
  next
    assume "\<not> i < 0" "j < 0"
    with eq have "CHR ''-'' # str_nat (nat (- j)) = str_nat (nat i)" by (simp add: str_def)
    then have "hd (str_nat (nat i)) = CHR ''-''" by (metis list.sel(1))
    with hd_neg show ?thesis by blast
  next
    assume "\<not> i < 0" "\<not> j < 0"
    with eq have "nat i = nat j" by (auto simp: str_def dest: str_nat_inj)
    with \<open>\<not> i < 0\<close> \<open>\<not> j < 0\<close> show ?thesis by simp
  qed
qed

lemma str_eq_iff: "str i = str j \<longleftrightarrow> i = j"
  using str_inj by blast

section \<open>The operations of Library keep the indexes consistent\<close>

lemma index_ok_map:
  assumes "distinct (map fst bks)"
  shows "index_ok fld bks cur idx \<longleftrightarrow>
     distinct (map fst idx) \<and> idx_rel fld (map_of bks) cur (map_of idx)"
proof (cases "distinct (map fst idx)")
  case False
  then show ?thesis by (simp add: index_ok_def)
next
  case d: True
  have A: "(\<forall>(k, ids) \<in> set idx. ids \<noteq> [] \<and> distinct ids \<and>
        (\<forall>i \<in> set ids. i \<le> cur \<and> map_option fld (map_of bks (str i)) = Some k)) \<longleftrightarrow>
     (\<forall>k ids. map_of idx k = Some ids \<longrightarrow> ids \<noteq> [] \<and> distinct ids \<and>
        (\<forall>i \<in> set ids. i \<le> cur \<and> (\<exists>b. map_of bks (str i) = Some b \<and> fld b = k)))"
    using d by (auto simp: map_of_eq_Some_iff) 
  have B: "(\<forall>(key, b) \<in> set bks.
        (case map_of idx (fld b) of Some ids \<Rightarrow> \<exists>i \<in> set ids. str i = key | None \<Rightarrow> False)) \<longleftrightarrow>
     (\<forall>key b. map_of bks key = Some b \<longrightarrow>
        (\<exists>ids i. map_of idx (fld b) = Some ids \<and> i \<in> set ids \<and> str i = key))"
    using assms by (fastforce simp: map_of_eq_Some_iff split: option.splits)
  show ?thesis unfolding index_ok_def idx_rel_def using d A B by simp
qed

lemma idx_rel_key_bound:
  assumes "idx_rel fld bm cur im" "bm key = Some b"
  shows "\<exists>i. key = str i \<and> i \<le> cur"
  using assms unfolding idx_rel_def by blast

lemma idx_rel_fresh:
  assumes "idx_rel fld bm cur im"
  shows "bm (str (cur + 1)) = None"
proof (rule ccontr)
  assume "bm (str (cur + 1)) \<noteq> None"
  then obtain b where "bm (str (cur + 1)) = Some b" by blast
  from idx_rel_key_bound [OF assms this] obtain i where "str (cur + 1) = str i" "i \<le> cur" by blast
  then show False by (auto dest: str_inj)
qed

lemma idx_rel_add:
  assumes r: "idx_rel fld bm cur im" and k: "fld b = k"
  shows "idx_rel fld (bm(str (cur + 1) \<mapsto> b)) (cur + 1)
           (im(k \<mapsto> (case im k of Some ids \<Rightarrow> ids @ [cur + 1] | None \<Rightarrow> [cur + 1])))"
  unfolding idx_rel_def
proof (rule conjI; intro allI impI)
  fix k' ids'
  assume h: "(im(k \<mapsto> (case im k of Some ids \<Rightarrow> ids @ [cur + 1] | None \<Rightarrow> [cur + 1]))) k' = Some ids'"
  show "ids' \<noteq> [] \<and> distinct ids' \<and>
        (\<forall>i\<in>set ids'. i \<le> cur + 1 \<and> (\<exists>ba. (bm(str (cur + 1) \<mapsto> b)) (str i) = Some ba \<and> fld ba = k'))"
  proof (cases "k' = k")
    case False
    with h have "im k' = Some ids'" by simp
    with r have "ids' \<noteq> []" "distinct ids'"
      and "\<forall>i\<in>set ids'. i \<le> cur \<and> (\<exists>b. bm (str i) = Some b \<and> fld b = k')"
      unfolding idx_rel_def by blast+
    then show ?thesis by (fastforce simp: str_eq_iff)
  next
    case True
    show ?thesis
    proof (cases "im k")
      case None
      with h True have "ids' = [cur + 1]" by simp
      with True k show ?thesis by simp
    next
      case (Some ids)
      with h True have eq: "ids' = ids @ [cur + 1]" by simp
      from r Some have "distinct ids"
        and old: "\<forall>i\<in>set ids. i \<le> cur \<and> (\<exists>b. bm (str i) = Some b \<and> fld b = k)"
        unfolding idx_rel_def by blast+
      then show ?thesis using eq True k by (fastforce simp: str_eq_iff)
    qed
  qed
next
  fix key b'
  assume h: "(bm(str (cur + 1) \<mapsto> b)) key = Some b'"
  show "\<exists>ids i. (im(k \<mapsto> (case im k of Some ids \<Rightarrow> ids @ [cur + 1] | None \<Rightarrow> [cur + 1]))) (fld b') = Some ids \<and>
          i \<in> set ids \<and> str i = key"
  proof (cases "key = str (cur + 1)")
    case True
    with h k have "fld b' = k" by simp
    with True show ?thesis by (cases "im k") auto
  next
    case False
    with h have "bm key = Some b'" by simp
    with r obtain ids i where "im (fld b') = Some ids" "i \<in> set ids" "str i = key"
      unfolding idx_rel_def by blast
    then show ?thesis by (cases "fld b' = k") auto
  qed
qed

lemma idx_rel_change:
  assumes r: "idx_rel fld bm cur im" and b: "bm key = Some b" and f: "fld b' = fld b"
  shows "idx_rel fld (bm(key \<mapsto> b')) cur im"
  unfolding idx_rel_def
proof (rule conjI; intro allI impI)
  fix k ids
  assume "im k = Some ids"
  with r have "ids \<noteq> []" "distinct ids"
    and "\<forall>i\<in>set ids. i \<le> cur \<and> (\<exists>b. bm (str i) = Some b \<and> fld b = k)"
    unfolding idx_rel_def by blast+
  then show "ids \<noteq> [] \<and> distinct ids \<and>
        (\<forall>i\<in>set ids. i \<le> cur \<and> (\<exists>b. (bm(key \<mapsto> b')) (str i) = Some b \<and> fld b = k))"
    using b f by fastforce
next
  fix key' b''
  assume "(bm(key \<mapsto> b')) key' = Some b''"
  then have "\<exists>b0. bm key' = Some b0 \<and> fld b0 = fld b''"
    using b f by (cases "key' = key") auto
  with r show "\<exists>ids i. im (fld b'') = Some ids \<and> i \<in> set ids \<and> str i = key'"
    unfolding idx_rel_def by metis
qed

lemma idx_rel_delete:
  assumes r: "idx_rel fld bm cur im" and b: "bm (str i) = Some b"
  shows "\<exists>ids. im (fld b) = Some ids \<and> i \<in> set ids \<and>
           idx_rel fld (bm(str i := None)) cur
             (if remove1 i ids = [] then im(fld b := None) else im(fld b \<mapsto> remove1 i ids))"
proof -
  from r b obtain ids j where ids: "im (fld b) = Some ids" and j: "j \<in> set ids" "str j = str i"
    unfolding idx_rel_def by blast
  then have i: "i \<in> set ids" by (auto dest: str_inj)
  from r ids have dist: "distinct ids" unfolding idx_rel_def by blast
  let ?im = "if remove1 i ids = [] then im(fld b := None) else im(fld b \<mapsto> remove1 i ids)"
  have lookup: "?im k = Some l \<Longrightarrow>
       (k = fld b \<and> l = remove1 i ids \<and> l \<noteq> []) \<or> (k \<noteq> fld b \<and> im k = Some l)" for k l
    by (auto split: if_splits)
  have "idx_rel fld (bm(str i := None)) cur ?im"
    unfolding idx_rel_def
  proof (rule conjI; intro allI impI)
    fix k l
    assume "?im k = Some l"
    from lookup [OF this] show "l \<noteq> [] \<and> distinct l \<and>
        (\<forall>i'\<in>set l. i' \<le> cur \<and> (\<exists>ba. (bm(str i := None)) (str i') = Some ba \<and> fld ba = k))"
    proof
      assume h: "k = fld b \<and> l = remove1 i ids \<and> l \<noteq> []"
      from r ids have "\<forall>i'\<in>set ids. i' \<le> cur \<and> (\<exists>ba. bm (str i') = Some ba \<and> fld ba = fld b)"
        unfolding idx_rel_def by blast
      with h dist show ?thesis by (auto simp: str_eq_iff)
    next
      assume h: "k \<noteq> fld b \<and> im k = Some l"
      with r have "l \<noteq> []" "distinct l"
        and all: "\<forall>i'\<in>set l. i' \<le> cur \<and> (\<exists>ba. bm (str i') = Some ba \<and> fld ba = k)"
        unfolding idx_rel_def by blast+
      moreover have "i \<notin> set l"
      proof
        assume "i \<in> set l"
        with all b have "fld b = k" by fastforce
        with h show False by simp
      qed
      ultimately show ?thesis by (auto simp: str_eq_iff)
    qed
  next
    fix key b'
    assume h: "(bm(str i := None)) key = Some b'"
    then have ne: "key \<noteq> str i" and b': "bm key = Some b'" by (auto split: if_splits)
    with r obtain l j' where l: "im (fld b') = Some l" "j' \<in> set l" "str j' = key"
      unfolding idx_rel_def by blast
    show "\<exists>ids i'. ?im (fld b') = Some ids \<and> i' \<in> set ids \<and> str i' = key"
    proof (cases "fld b' = fld b")
      case False
      with l show ?thesis by auto
    next
      case True
      with l ids have "l = ids" by simp
      moreover from l ne have "j' \<noteq> i" by auto
      ultimately have "j' \<in> set (remove1 i ids)" using l dist by simp
      then have "remove1 i ids \<noteq> []" by auto
      with True \<open>j' \<in> set (remove1 i ids)\<close> l show ?thesis by auto
    qed
  qed
  with ids i show ?thesis by blast
qed


lemma map_of_index_add:
  "map_of (index_add k i idx) =
     (map_of idx)(k \<mapsto> (case map_of idx k of Some ids \<Rightarrow> ids @ [i] | None \<Rightarrow> [i]))"
  by (simp add: index_add_def update_conv' split: option.splits)

lemma distinct_index_add:
  "distinct (map fst idx) \<Longrightarrow> distinct (map fst (index_add k i idx))"
  by (simp add: index_add_def distinct_update split: option.splits)

lemma index_remove_Inr:
  assumes "map_of idx k = Some ids" "i \<in> set ids"
  shows "index_remove k i idx =
           Inr (if remove1 i ids = [] then AList.delete k idx else AList.update k (remove1 i ids) idx)"
  using assms by (simp add: index_remove_def)

lemma consistent_start_data: "consistent start_data"
  by (simp add: consistent_def start_data_def index_ok_def)

lemma consistent_add_book:
  assumes "consistent lib"
  shows "consistent (fst (add_book lib t a y))"
proof -
  let ?n = "current_id lib + 1"
  let ?b = "\<lparr>title = t, author = a, year = y, status = Available\<rparr>"
  let ?bks = "AList.update (str ?n) ?b (books lib)"
  from assms have d: "distinct (map fst (books lib))"
    and yo: "index_ok year (books lib) (current_id lib) (years lib)"
    and ao: "index_ok author (books lib) (current_id lib) (authors lib)"
    by (simp_all add: consistent_def)
  have d': "distinct (map fst ?bks)" using d by (rule distinct_update)
  have "index_ok fld ?bks ?n (index_add (fld ?b) ?n idx)"
    if "index_ok fld (books lib) (current_id lib) idx" for fld idx
  proof -
    from that d have "distinct (map fst idx)"
      and "idx_rel fld (map_of (books lib)) (current_id lib) (map_of idx)"
      by (simp_all add: index_ok_map)
    then show ?thesis
      using idx_rel_add [of fld "map_of (books lib)" "current_id lib" "map_of idx" ?b "fld ?b"]
      by (simp add: index_ok_map [OF d'] distinct_index_add map_of_index_add update_conv')
  qed
  from this [OF yo] this [OF ao] d' show ?thesis
    by (simp add: add_book_def consistent_def Let_def)
qed

lemma consistent_delete_book:
  assumes c: "consistent lib" and f: "map_of (books lib) (str (book_id book)) = Some found"
    and y: "year book = year found" and a: "author book = author found"
  shows "\<exists>lib'. delete_book lib book = Inr lib' \<and> consistent lib' \<and> current_id lib' = current_id lib"
proof -
  let ?i = "book_id book"
  let ?bks = "AList.delete (str ?i) (books lib)"
  from c have d: "distinct (map fst (books lib))"
    and yo: "index_ok year (books lib) (current_id lib) (years lib)"
    and ao: "index_ok author (books lib) (current_id lib) (authors lib)"
    by (simp_all add: consistent_def)
  have d': "distinct (map fst ?bks)" using d by (rule distinct_delete)
  have step: "\<exists>idx'. index_remove (fld found) ?i idx = Inr idx' \<and> index_ok fld ?bks (current_id lib) idx'"
    if "index_ok fld (books lib) (current_id lib) idx" for fld idx
  proof -
    from that d have di: "distinct (map fst idx)"
      and "idx_rel fld (map_of (books lib)) (current_id lib) (map_of idx)"
      by (simp_all add: index_ok_map)
    from idx_rel_delete [OF this(2) f] obtain ids where ids: "map_of idx (fld found) = Some ids"
      "?i \<in> set ids"
      and r: "idx_rel fld ((map_of (books lib))(str ?i := None)) (current_id lib)
             (if remove1 ?i ids = [] then (map_of idx)(fld found := None)
              else (map_of idx)(fld found \<mapsto> remove1 ?i ids))"
      by blast
    show ?thesis
      using r di by (simp add: index_remove_Inr [OF ids] index_ok_map [OF d'] delete_conv'
          update_conv' distinct_delete distinct_update split: if_splits)
  qed
  from step [OF yo] obtain ys where ys: "index_remove (year found) ?i (years lib) = Inr ys"
    "index_ok year ?bks (current_id lib) ys" by blast
  from step [OF ao] obtain as where as: "index_remove (author found) ?i (authors lib) = Inr as"
    "index_ok author ?bks (current_id lib) as" by blast
  show ?thesis
    using f y a ys as d' by (simp add: delete_book_def consistent_def Let_def)
qed

lemma consistent_change_book_status:
  assumes c: "consistent lib" and f: "map_of (books lib) (str (book_id book)) = Some found"
  shows "\<exists>lib'. change_book_status lib book s = Inr lib' \<and> consistent lib' \<and> current_id lib' = current_id lib"
proof -
  let ?k = "str (book_id book)"
  let ?bks = "AList.update ?k (found\<lparr>status := s\<rparr>) (books lib)"
  from c have d: "distinct (map fst (books lib))"
    and yo: "index_ok year (books lib) (current_id lib) (years lib)"
    and ao: "index_ok author (books lib) (current_id lib) (authors lib)"
    by (simp_all add: consistent_def)
  have d': "distinct (map fst ?bks)" using d by (rule distinct_update)
  have "index_ok fld ?bks (current_id lib) idx"
    if "index_ok fld (books lib) (current_id lib) idx" "fld (found\<lparr>status := s\<rparr>) = fld found" for fld idx
  proof -
    from that d have di: "distinct (map fst idx)"
      and "idx_rel fld (map_of (books lib)) (current_id lib) (map_of idx)"
      by (simp_all add: index_ok_map)
    from idx_rel_change [OF this(2) f that(2)] di show ?thesis
      by (simp add: index_ok_map [OF d'] update_conv')
  qed
  from this [OF yo] this [OF ao] f d' show ?thesis
    by (simp add: change_book_status_def consistent_def)
qed

section \<open>The menu functions keep the indexes consistent\<close>

lemma consistent_add:
  "consistent lib \<Longrightarrow> consistent (fst (add P lib now title_in author_in year_in))"
  using consistent_add_book [of lib "py_strip P title_in" "py_strip P author_in" "py_strip P year_in"]
  by (auto simp: add_def Let_def split: option.splits prod.splits)

lemma consistent_delete:
  assumes "consistent lib"
  shows "\<exists>lib' out. delete P lib id_in decision_in = Inr (lib', out) \<and> consistent lib' \<and>
           current_id lib' = current_id lib"
proof (cases "py_int P (py_strip P id_in)")
  case None
  with assms show ?thesis by (simp add: delete_def)
next
  case (Some i)
  show ?thesis
  proof (cases "search_by_id lib (str i)")
    case None
    with Some assms show ?thesis by (simp add: delete_def)
  next
    case (Some found)
    let ?book = "\<lparr>title = title found, author = author found, year = year found,
                   status = status found, book_id = i\<rparr>"
    from Some have "map_of (books lib) (str (book_id ?book)) = Some found"
      by (simp add: search_by_id_def)
    from consistent_delete_book [OF assms this] obtain lib' where
      "delete_book lib ?book = Inr lib'" "consistent lib'" "current_id lib' = current_id lib"
      by auto
    with Some \<open>py_int P (py_strip P id_in) = Some i\<close> assms show ?thesis
      by (simp add: delete_def Let_def)
  qed
qed

lemma consistent_change_status:
  assumes c: "consistent lib" and r: "change_status P lib id_in choice_in = Inr (lib', out)"
  shows "consistent lib' \<and> current_id lib' = current_id lib"
proof (cases "py_int P id_in")
  case None
  with assms show ?thesis by (simp add: change_status_def)
next
  case i: (Some i)
  show ?thesis
  proof (cases "search_by_id lib (str i)")
    case None
    with i assms show ?thesis by (simp add: change_status_def)
  next
    case (Some found)
    let ?book = "\<lparr>title = title found, author = author found, year = year found,
                   status = status found, book_id = i\<rparr>"
    from Some have f: "map_of (books lib) (str (book_id ?book)) = Some found"
      by (simp add: search_by_id_def)
    show ?thesis
    proof (cases "py_int P choice_in")
      case None
      with i Some r show ?thesis by (simp add: change_status_def)
    next
      case ch: (Some choice)
      have cases3: "choice = 1 \<or> choice = 2 \<or> (choice \<noteq> 1 \<and> choice \<noteq> 2)" by auto
      then show ?thesis
      proof (elim disjE)
        assume one: "choice = 1"
        from consistent_change_book_status [OF c f, of Available] obtain l where
          l: "change_book_status lib ?book Available = Inr l" "consistent l" "current_id l = current_id lib"
          by blast
        with i Some ch one r have "lib' = l" by (simp add: change_status_def)
        with l show ?thesis by simp
      next
        assume two: "choice = 2"
        from consistent_change_book_status [OF c f, of Checked_out] obtain l where
          l: "change_book_status lib ?book Checked_out = Inr l" "consistent l" "current_id l = current_id lib"
          by blast
        with i Some ch two r have "lib' = l" by (simp add: change_status_def)
        with l show ?thesis by simp
      next
        assume "choice \<noteq> 1 \<and> choice \<noteq> 2"
        with i Some ch r have "lib' = lib" by (simp add: change_status_def)
        with c show ?thesis by simp
      qed
    qed
  qed
qed

lemma consistent_step:
  assumes "consistent lib" "step P lib c = Inr (lib', out)"
  shows "consistent lib'"
proof (cases c)
  case (Choice1 now title_in author_in year_in)
  with assms(2) have "lib' = fst (add P lib now title_in author_in year_in)" by auto
  with consistent_add [OF assms(1)] show ?thesis by simp
next
  case (Choice2 id_in decision_in)
  with assms(2) consistent_delete [OF assms(1), of P id_in decision_in] show ?thesis by auto
next
  case (Choice5 id_in choice_in)
  with assms(2) consistent_change_status [OF assms(1), of P id_in choice_in lib' out] show ?thesis
    by simp
qed

lemma consistent_run:
  "consistent lib \<Longrightarrow> run P lib cs = Inr (lib', outs) \<Longrightarrow> consistent lib'"
proof (induction cs arbitrary: lib outs)
  case Nil
  then show ?case by simp
next
  case (Cons c cs)
  from Cons.prems(2) obtain l out outs' where s: "step P lib c = Inr (l, out)"
    and r: "run P l cs = Inr (lib', outs')"
    by (auto split: sum.splits prod.splits)
  from consistent_step [OF Cons.prems(1) s] have "consistent l" .
  from Cons.IH [OF this r] show ?case .
qed

lemma consistent_reachable:
  "run P start_data cs = Inr (lib, outs) \<Longrightarrow> consistent lib"
  using consistent_run [OF consistent_start_data] .

section \<open>Search with an unknown criteria\<close>

text \<open>
  C10. For every catalog and every value, \<open>search_by_author_or_year\<close> called with a
  criteria that is neither "author" nor "year" returns the empty dictionary and raises
  nothing.
\<close>

theorem search_unknown_criteria_empty:
  "criteria \<noteq> ''author'' \<Longrightarrow> criteria \<noteq> ''year'' \<Longrightarrow>
   search_by_author_or_year lib v criteria = Inr []"
  by (simp add: search_by_author_or_year_def)

theorem search_unknown_criteria_empty_witness:
  "''title'' \<noteq> ''author'' \<and> ''title'' \<noteq> ''year'' \<and>
   search_by_author_or_year (fst (add_book start_data ''Dune'' ''Herbert'' ''1965'')) ''Herbert'' ''title'' = Inr []"
  using search_unknown_criteria_empty [of "''title''" "fst (add_book start_data ''Dune'' ''Herbert'' ''1965'')" "''Herbert''"]
  by simp

section \<open>Index and record consistency\<close>

lemma run_session: "run ascii_builtins start_data session = Inr (session_lib, session_outs)"
  by code_simp

lemma count_list_distinct: "distinct xs \<Longrightarrow> x \<in> set xs \<Longrightarrow> count_list xs x = 1"
  by (induction xs) auto

lemma consistent_index_ids:
  assumes "consistent lib"
  shows "\<forall>(k, ids) \<in> set (years lib) \<union> set (authors lib).
           ids \<noteq> [] \<and> (\<forall>i \<in> set ids. search_by_id lib (str i) \<noteq> None)"
  using assms by (fastforce simp: consistent_def index_ok_def search_by_id_def)

lemma consistent_record_ids:
  assumes c: "consistent lib" and kb: "(key, b) \<in> set (books lib)"
  shows "\<exists>i. key = str i \<and>
           (\<exists>ids. map_of (years lib) (year b) = Some ids \<and> count_list ids i = 1) \<and>
           (\<exists>ids. map_of (authors lib) (author b) = Some ids \<and> count_list ids i = 1)"
proof -
  from c have d: "distinct (map fst (books lib))" by (simp add: consistent_def)
  with kb have m: "map_of (books lib) key = Some b" by simp
  from c d have y: "idx_rel year (map_of (books lib)) (current_id lib) (map_of (years lib))"
    and a: "idx_rel author (map_of (books lib)) (current_id lib) (map_of (authors lib))"
    by (simp_all add: consistent_def index_ok_map)
  from y m obtain ys i where ys: "map_of (years lib) (year b) = Some ys" "i \<in> set ys" "str i = key"
    unfolding idx_rel_def by blast
  from a m obtain as j where as: "map_of (authors lib) (author b) = Some as" "j \<in> set as" "str j = key"
    unfolding idx_rel_def by blast
  from ys as have ji: "j = i" by (auto dest: str_inj)
  from y ys have "distinct ys" unfolding idx_rel_def by blast
  with ys have "count_list ys i = 1" by (simp add: count_list_distinct)
  moreover from a as have "distinct as" unfolding idx_rel_def by blast
  with as ji have "count_list as i = 1" by (simp add: count_list_distinct)
  ultimately show ?thesis using ys as by auto
qed

text \<open>
  C1. In every state that a session reaches from the empty library, whatever entries
  of the menu were chosen (add, delete, change status): no index list is empty, every
  id in a list of \<open>years\<close> or \<open>authors\<close> is the key of a record, and every record
  has an id that occurs exactly once in the \<open>years\<close> list of its year and exactly once
  in the \<open>authors\<close> list of its author.
\<close>

theorem index_record_consistency:
  assumes "run P start_data cmds = Inr (lib, outs)"
  shows "(\<forall>(k, ids) \<in> set (years lib) \<union> set (authors lib).
            ids \<noteq> [] \<and> (\<forall>i \<in> set ids. search_by_id lib (str i) \<noteq> None)) \<and>
         (\<forall>(key, b) \<in> set (books lib).
            \<exists>i. key = str i \<and>
              (\<exists>ids. map_of (years lib) (year b) = Some ids \<and> count_list ids i = 1) \<and>
              (\<exists>ids. map_of (authors lib) (author b) = Some ids \<and> count_list ids i = 1))"
proof -
  from assms have c: "consistent lib" by (rule consistent_reachable)
  from consistent_record_ids [OF c] consistent_index_ids [OF c] show ?thesis by blast
qed

theorem index_record_consistency_witness:
  "run ascii_builtins start_data session = Inr (session_lib, session_outs) \<and>
   list_all (\<lambda>(k, ids). ids \<noteq> [] \<and> list_all (\<lambda>i. search_by_id session_lib (str i) \<noteq> None) ids)
     (years session_lib @ authors session_lib) \<and>
   list_all (\<lambda>(key, b).
      \<exists>i. key = str i \<and>
        (\<exists>ids. map_of (years session_lib) (year b) = Some ids \<and> count_list ids i = 1) \<and>
        (\<exists>ids. map_of (authors session_lib) (author b) = Some ids \<and> count_list ids i = 1))
     (books session_lib)"
  using index_record_consistency [OF run_session] run_session
  by (simp add: list_all_iff Ball_def case_prod_beta)

section \<open>Identifiers\<close>

lemma add_book_current_id:
  "add_book lib t a y = (lib', b) \<Longrightarrow>
     book_id b = current_id lib + 1 \<and> current_id lib' = current_id lib + 1"
  by (auto simp: add_book_def Let_def)

lemma delete_book_fields:
  "delete_book lib book = Inr lib' \<Longrightarrow>
     current_id lib' = current_id lib \<and> books lib' = AList.delete (str (book_id book)) (books lib)"
  by (auto simp: delete_book_def Let_def split: option.splits sum.splits)

lemma change_book_status_current_id:
  "change_book_status lib book s = Inr lib' \<Longrightarrow> current_id lib' = current_id lib"
  by (auto simp: change_book_status_def split: option.splits)

lemma add_current_id:
  assumes "add P lib now title_in author_in year_in = (lib', out)"
  shows "(\<forall>b. out = Added b \<longrightarrow> book_id b = current_id lib + 1 \<and> current_id lib' = current_id lib + 1) \<and>
         ((\<forall>b. out \<noteq> Added b) \<longrightarrow> lib' = lib)"
  using assms
  by (auto simp: add_def Let_def split: option.splits if_splits prod.splits dest: add_book_current_id)

lemma delete_current_id:
  assumes "delete P lib id_in decision_in = Inr (lib', out)"
  shows "current_id lib' = current_id lib \<and> (\<forall>b. out \<noteq> Added b)"
  using assms
  by (auto simp: delete_def Let_def split: option.splits if_splits sum.splits dest: delete_book_fields)

lemma change_status_current_id:
  assumes "change_status P lib id_in choice_in = Inr (lib', out)"
  shows "current_id lib' = current_id lib \<and> (\<forall>b. out \<noteq> Added b)"
  using assms
  by (auto simp: change_status_def Let_def split: option.splits if_splits sum.splits
      dest: change_book_status_current_id)

lemma step_current_id:
  assumes "step P lib c = Inr (lib', out)"
  shows "(\<forall>b. out = Added b \<longrightarrow> book_id b = current_id lib + 1 \<and> current_id lib' = current_id lib + 1) \<and>
         ((\<forall>b. out \<noteq> Added b) \<longrightarrow> current_id lib' = current_id lib)"
proof (cases c)
  case (Choice1 now title_in author_in year_in)
  with assms have "add P lib now title_in author_in year_in = (lib', out)" by simp
  from add_current_id [OF this] show ?thesis by auto
next
  case (Choice2 id_in decision_in)
  with assms delete_current_id [of P lib id_in decision_in lib' out] show ?thesis by simp
next
  case (Choice5 id_in choice_in)
  with assms change_status_current_id [of P lib id_in choice_in lib' out] show ?thesis by simp
qed

lemma issued_Cons:
  "issued (out # outs) = (case out of Added b \<Rightarrow> book_id b # issued outs | _ \<Rightarrow> issued outs)"
  by (cases out) simp_all

lemma run_issued:
  "run P lib cs = Inr (lib', outs) \<Longrightarrow>
     current_id lib \<le> current_id lib' \<and> sorted_wrt (<) (issued outs) \<and>
     (\<forall>i \<in> set (issued outs). current_id lib < i \<and> i \<le> current_id lib')"
proof (induction cs arbitrary: lib outs)
  case Nil
  then show ?case by auto
next
  case (Cons c cs)
  from Cons.prems obtain l out outs' where s: "step P lib c = Inr (l, out)"
    and r: "run P l cs = Inr (lib', outs')" and o: "outs = out # outs'"
    by (auto split: sum.splits prod.splits)
  note ih = Cons.IH [OF r]
  note st = step_current_id [OF s]
  show ?case
  proof (cases "\<exists>b. out = Added b")
    case True
    then obtain b where b: "out = Added b" by blast
    with st have "book_id b = current_id lib + 1" "current_id l = current_id lib + 1" by auto
    with ih b o show ?thesis by force
  next
    case False
    with st have "current_id l = current_id lib" by auto
    moreover from False have "issued outs = issued outs'" unfolding o
      by (cases out) auto
    ultimately show ?thesis using ih by auto
  qed
qed

text \<open>
  C2. For every session that starts from the empty library: the ids that its adds
  have returned are strictly increasing in the order of their creation (so each is
  greater than, and different from, every id issued before it, deleted or not), none
  exceeds \<open>current_id\<close>, the next add returns an id greater than all of them, and a
  delete leaves \<open>current_id\<close> as it is.
\<close>

theorem ids_strictly_increasing:
  assumes "run P start_data cmds = Inr (lib, outs)"
  shows "sorted_wrt (<) (issued outs) \<and> distinct (issued outs) \<and>
         (\<forall>i \<in> set (issued outs). 0 < i \<and> i \<le> current_id lib) \<and>
         (\<forall>i \<in> set (issued outs). i < book_id (snd (add_book lib t a y))) \<and>
         (\<forall>lib' out. delete P lib id_in decision_in = Inr (lib', out) \<longrightarrow>
            current_id lib' = current_id lib)"
proof -
  from run_issued [OF assms] have s: "sorted_wrt (<) (issued outs)"
    and b: "\<forall>i \<in> set (issued outs). 0 < i \<and> i \<le> current_id lib"
    by (auto simp: start_data_def)
  from s have "distinct (issued outs)" by (simp add: strict_sorted_iff)
  moreover have "book_id (snd (add_book lib t a y)) = current_id lib + 1"
    by (simp add: add_book_def Let_def)
  ultimately show ?thesis using s b delete_current_id by fastforce
qed

theorem ids_strictly_increasing_witness:
  "run ascii_builtins start_data session = Inr (session_lib, session_outs) \<and>
   issued session_outs = [1, 2, 3] \<and> current_id session_lib = 3 \<and>
   sorted_wrt (<) (issued session_outs) \<and> distinct (issued session_outs) \<and>
   list_all (\<lambda>i. 0 < i \<and> i \<le> current_id session_lib) (issued session_outs) \<and>
   list_all (\<lambda>i. i < book_id (snd (add_book session_lib ''Emma'' ''Austen'' ''1815'')))
     (issued session_outs) \<and>
   (\<exists>lib'. delete ascii_builtins session_lib ''3'' ''1'' = Inr (lib', Deleted 3) \<and>
      current_id lib' = current_id session_lib)"
proof -
  note t = ids_strictly_increasing [OF run_session, of "''Emma''" "''Austen''" "''1815''" "''3''" "''1''"]
  have "map_sum id snd (delete ascii_builtins session_lib ''3'' ''1'') = Inr (Deleted 3)" by code_simp
  then obtain lib' where d: "delete ascii_builtins session_lib ''3'' ''1'' = Inr (lib', Deleted 3)"
    by (cases "delete ascii_builtins session_lib ''3'' ''1''") auto
  with t have "current_id lib' = current_id session_lib" by blast
  with d have "\<exists>lib'. delete ascii_builtins session_lib ''3'' ''1'' = Inr (lib', Deleted 3) \<and>
      current_id lib' = current_id session_lib" by blast
  moreover have "issued session_outs = [1, 2, 3]" "current_id session_lib = 3"
    by (simp_all add: session_outs_def session_lib_def)
  ultimately show ?thesis using t run_session by (simp add: list_all_iff)
qed

section \<open>Finding a book after it was added\<close>

lemma rez_books_loop_ok:
  assumes "\<forall>i \<in> set ids. map_of (books lib) (str i) \<noteq> None"
  shows "\<exists>r. rez_books_loop lib ids rez = Inr r \<and>
           (\<forall>i. map_of r i = (if i \<in> set ids then map_of (books lib) (str i) else map_of rez i))"
  using assms
proof (induction ids arbitrary: rez)
  case Nil
  then show ?case by simp
next
  case (Cons j ids)
  from Cons.prems obtain b where b: "map_of (books lib) (str j) = Some b" by auto
  from Cons.prems have "\<forall>i \<in> set ids. map_of (books lib) (str i) \<noteq> None" by simp
  from Cons.IH [OF this, of "AList.update j b rez"] obtain r where
    r: "rez_books_loop lib ids (AList.update j b rez) = Inr r"
    "\<forall>i. map_of r i = (if i \<in> set ids then map_of (books lib) (str i)
                        else map_of (AList.update j b rez) i)"
    by blast
  from r b show ?case by (auto simp: update_conv')
qed

lemma consistent_search_index:
  assumes c: "consistent lib"
  shows "\<exists>r. search_by_author_or_year lib v ''author'' = Inr r \<and>
           (\<forall>i. map_of r i = (case map_of (authors lib) v of
                                 Some ids \<Rightarrow> if i \<in> set ids then map_of (books lib) (str i) else None
                               | None \<Rightarrow> None))"
    and "\<exists>r. search_by_author_or_year lib v ''year'' = Inr r \<and>
           (\<forall>i. map_of r i = (case map_of (years lib) v of
                                 Some ids \<Rightarrow> if i \<in> set ids then map_of (books lib) (str i) else None
                               | None \<Rightarrow> None))"
proof -
  from c have d: "distinct (map fst (books lib))" by (simp add: consistent_def)
  with c have y: "idx_rel year (map_of (books lib)) (current_id lib) (map_of (years lib))"
    and a: "idx_rel author (map_of (books lib)) (current_id lib) (map_of (authors lib))"
    by (simp_all add: consistent_def index_ok_map)
  have ok: "\<forall>i \<in> set ids. map_of (books lib) (str i) \<noteq> None"
    if "idx_rel fld (map_of (books lib)) (current_id lib) im" "im v = Some ids" for fld im ids
    using that unfolding idx_rel_def by fastforce
  show "\<exists>r. search_by_author_or_year lib v ''author'' = Inr r \<and>
           (\<forall>i. map_of r i = (case map_of (authors lib) v of
                                 Some ids \<Rightarrow> if i \<in> set ids then map_of (books lib) (str i) else None
                               | None \<Rightarrow> None))"
  proof (cases "map_of (authors lib) v")
    case None
    then show ?thesis by (simp add: search_by_author_or_year_def)
  next
    case (Some ids)
    from rez_books_loop_ok [OF ok [OF a Some], of "[]"] Some show ?thesis
      by (fastforce simp: search_by_author_or_year_def)
  qed
  show "\<exists>r. search_by_author_or_year lib v ''year'' = Inr r \<and>
           (\<forall>i. map_of r i = (case map_of (years lib) v of
                                 Some ids \<Rightarrow> if i \<in> set ids then map_of (books lib) (str i) else None
                               | None \<Rightarrow> None))"
  proof (cases "map_of (years lib) v")
    case None
    then show ?thesis by (simp add: search_by_author_or_year_def)
  next
    case (Some ids)
    from rez_books_loop_ok [OF ok [OF y Some], of "[]"] Some show ?thesis
      by (fastforce simp: search_by_author_or_year_def)
  qed
qed

lemma add_book_lookup:
  assumes "add_book lib t a y = (lib', b)"
  shows "b = \<lparr>title = t, author = a, year = y, status = Available, book_id = current_id lib + 1\<rparr>"
    and "map_of (books lib') (str (book_id b)) = Some \<lparr>title = t, author = a, year = y, status = Available\<rparr>"
    and "\<exists>ids. map_of (authors lib') a = Some ids \<and> book_id b \<in> set ids"
    and "\<exists>ids. map_of (years lib') y = Some ids \<and> book_id b \<in> set ids"
  using assms
  by (auto simp: add_book_def Let_def update_conv' map_of_index_add split: option.splits)

text \<open>
  C3. In a state reached from the empty library, when \<open>add_book\<close> with a title, an
  author and a year returns a book: its id was not in use before, \<open>search_by_id\<close>
  on it returns the record with these three fields and the status Available, and
  the search by this author and the search by this year both succeed with a
  dictionary that holds this record under the id.
\<close>

theorem add_then_find:
  assumes "run P start_data cmds = Inr (lib, outs)" and "add_book lib t a y = (lib', b)"
  shows "search_by_id lib (str (book_id b)) = None \<and>
         search_by_id lib' (str (book_id b)) =
           Some \<lparr>title = t, author = a, year = y, status = Available\<rparr> \<and>
         (\<exists>r. search_by_author_or_year lib' a ''author'' = Inr r \<and>
              map_of r (book_id b) = Some \<lparr>title = t, author = a, year = y, status = Available\<rparr>) \<and>
         (\<exists>r. search_by_author_or_year lib' y ''year'' = Inr r \<and>
              map_of r (book_id b) = Some \<lparr>title = t, author = a, year = y, status = Available\<rparr>)"
proof -
  from assms(1) have c: "consistent lib" by (rule consistent_reachable)
  with consistent_add_book [of lib t a y] assms(2) have c': "consistent lib'" by simp
  from c have d: "distinct (map fst (books lib))" by (simp add: consistent_def)
  with c have "idx_rel year (map_of (books lib)) (current_id lib) (map_of (years lib))"
    by (simp add: consistent_def index_ok_map)
  from idx_rel_fresh [OF this] add_book_lookup(1) [OF assms(2)]
  have fresh: "search_by_id lib (str (book_id b)) = None" by (simp add: search_by_id_def)
  note l = add_book_lookup(2-4) [OF assms(2)]
  from consistent_search_index(1) [OF c', of a] l(1,2)
  have au: "\<exists>r. search_by_author_or_year lib' a ''author'' = Inr r \<and>
              map_of r (book_id b) = Some \<lparr>title = t, author = a, year = y, status = Available\<rparr>"
    by auto
  from consistent_search_index(2) [OF c', of y] l(1,3)
  have ye: "\<exists>r. search_by_author_or_year lib' y ''year'' = Inr r \<and>
              map_of r (book_id b) = Some \<lparr>title = t, author = a, year = y, status = Available\<rparr>"
    by auto
  from fresh l(1) au ye show ?thesis by (simp add: search_by_id_def)
qed

lemma add_book_session:
  "add_book session_lib ''Emma'' ''Austen'' ''1815'' =
     (\<lparr>current_id = 4,
       books = books session_lib @ [(''4'', \<lparr>title = ''Emma'', author = ''Austen'', year = ''1815'', status = Available\<rparr>)],
       years = years session_lib @ [(''1815'', [4])],
       authors = authors session_lib @ [(''Austen'', [4])]\<rparr>,
      \<lparr>title = ''Emma'', author = ''Austen'', year = ''1815'', status = Available, book_id = 4\<rparr>)"
  by code_simp

theorem add_then_find_witness:
  "run ascii_builtins start_data session = Inr (session_lib, session_outs) \<and>
   search_by_id session_lib (str 4) = None \<and>
   search_by_id (fst (add_book session_lib ''Emma'' ''Austen'' ''1815'')) (str 4) =
     Some \<lparr>title = ''Emma'', author = ''Austen'', year = ''1815'', status = Available\<rparr> \<and>
   (\<exists>r. search_by_author_or_year (fst (add_book session_lib ''Emma'' ''Austen'' ''1815'')) ''Austen'' ''author'' = Inr r \<and>
        map_of r 4 = Some \<lparr>title = ''Emma'', author = ''Austen'', year = ''1815'', status = Available\<rparr>) \<and>
   (\<exists>r. search_by_author_or_year (fst (add_book session_lib ''Emma'' ''Austen'' ''1815'')) ''1815'' ''year'' = Inr r \<and>
        map_of r 4 = Some \<lparr>title = ''Emma'', author = ''Austen'', year = ''1815'', status = Available\<rparr>)"
  using add_then_find [OF run_session add_book_session] run_session
  by (simp add: add_book_session)

section \<open>Deleting a book\<close>

lemma consistent_sole_key_removed:
  assumes bk: "books lib' = AList.delete (str i) (books lib)"
    and d: "distinct (map fst (books lib))"
    and rel: "idx_rel fld (map_of (books lib')) (current_id lib') (map_of idx')"
    and sole: "\<forall>(k, b) \<in> set (books lib). fld b = v \<longrightarrow> k = str i"
  shows "map_of idx' v = None"
proof (rule ccontr)
  assume "map_of idx' v \<noteq> None"
  then obtain l where l: "map_of idx' v = Some l" by blast
  with rel have "l \<noteq> []" unfolding idx_rel_def by blast
  then obtain j where j: "j \<in> set l" by (cases l) auto
  with rel l obtain b where b: "map_of (books lib') (str j) = Some b" "fld b = v"
    unfolding idx_rel_def by blast
  from b(1) have ne: "str j \<noteq> str i" and "map_of (books lib) (str j) = Some b"
    unfolding bk by (auto simp: delete_conv' split: if_splits)
  with d have "(str j, b) \<in> set (books lib)" by simp
  with sole b(2) have "str j = str i" by blast
  with ne show False by simp
qed

text \<open>
  C4. In a state reached from the empty library, deleting through the menu a book
  that exists (\<open>int\<close> reads the id of a record from the line typed, and reads 1 from
  the confirmation) succeeds; afterwards \<open>search_by_id\<close> on the id finds nothing, the
  id is in no list of \<open>years\<close> or \<open>authors\<close>, \<open>current_id\<close> is what it was, the records
  are the former ones without the deleted one, and when no other record had the
  deleted record's author (or year) that key is gone from \<open>authors\<close> (or \<open>years\<close>).
\<close>

theorem delete_then_not_found:
  assumes "run P start_data cmds = Inr (lib, outs)"
    and "py_int P (py_strip P id_in) = Some i"
    and "search_by_id lib (str i) = Some found"
    and "check_input P 0 decision_in = 1"
  shows "\<exists>lib'. delete P lib id_in decision_in = Inr (lib', Deleted i) \<and>
           search_by_id lib' (str i) = None \<and>
           (\<forall>(k, ids) \<in> set (years lib') \<union> set (authors lib'). i \<notin> set ids) \<and>
           ((\<forall>(k, b) \<in> set (books lib). author b = author found \<longrightarrow> k = str i) \<longrightarrow>
              map_of (authors lib') (author found) = None) \<and>
           ((\<forall>(k, b) \<in> set (books lib). year b = year found \<longrightarrow> k = str i) \<longrightarrow>
              map_of (years lib') (year found) = None) \<and>
           books lib' = AList.delete (str i) (books lib) \<and>
           current_id lib' = current_id lib"
proof -
  let ?book = "\<lparr>title = title found, author = author found, year = year found,
                 status = status found, book_id = i\<rparr>"
  from assms(1) have c: "consistent lib" by (rule consistent_reachable)
  then have d: "distinct (map fst (books lib))" by (simp add: consistent_def)
  from assms(3) have f: "map_of (books lib) (str (book_id ?book)) = Some found"
    by (simp add: search_by_id_def)
  from consistent_delete_book [OF c f] obtain lib' where
    del: "delete_book lib ?book = Inr lib'" and c': "consistent lib'"
    and cur: "current_id lib' = current_id lib"
    by auto
  from delete_book_fields [OF del] have bk: "books lib' = AList.delete (str i) (books lib)" by simp
  from c' have d': "distinct (map fst (books lib'))" by (simp add: consistent_def)
  with c' have y: "idx_rel year (map_of (books lib')) (current_id lib') (map_of (years lib'))"
    and a: "idx_rel author (map_of (books lib')) (current_id lib') (map_of (authors lib'))"
    by (simp_all add: consistent_def index_ok_map)
  have gone: "search_by_id lib' (str i) = None"
    by (simp add: search_by_id_def bk delete_conv')
  have r: "delete P lib id_in decision_in = Inr (lib', Deleted i)"
    using assms(2,3,4) del by (simp add: delete_def Let_def)
  from consistent_index_ids [OF c'] gone
  have idx: "\<forall>(k, ids) \<in> set (years lib') \<union> set (authors lib'). i \<notin> set ids"
    by fastforce
  have sa: "(\<forall>(k, b) \<in> set (books lib). author b = author found \<longrightarrow> k = str i) \<longrightarrow>
              map_of (authors lib') (author found) = None"
    using consistent_sole_key_removed [OF bk d a] by blast
  have sy: "(\<forall>(k, b) \<in> set (books lib). year b = year found \<longrightarrow> k = str i) \<longrightarrow>
              map_of (years lib') (year found) = None"
    using consistent_sole_key_removed [OF bk d y] by blast
  from r gone idx sa sy bk cur show ?thesis by blast
qed

lemma run_three_books:
  "run ascii_builtins start_data (take 3 session) = Inr (three_books, take 3 session_outs)"
  by code_simp

theorem delete_then_not_found_witness:
  "run ascii_builtins start_data (take 3 session) = Inr (three_books, take 3 session_outs) \<and>
   py_int ascii_builtins (py_strip ascii_builtins '' 1 '') = Some 1 \<and>
   search_by_id three_books (str 1) =
     Some \<lparr>title = ''Dune'', author = ''Herbert'', year = ''1965'', status = Available\<rparr> \<and>
   check_input ascii_builtins 0 ''1'' = 1 \<and>
   (\<exists>lib'. delete ascii_builtins three_books '' 1 '' ''1'' = Inr (lib', Deleted 1) \<and>
      search_by_id lib' (str 1) = None \<and>
      (\<forall>(k, ids) \<in> set (years lib') \<union> set (authors lib'). 1 \<notin> set ids) \<and>
      map_of (authors lib') ''Herbert'' = None \<and>
      map_of (years lib') ''1965'' = None \<and>
      map fst (books lib') = [''2'', ''3''] \<and>
      current_id lib' = 3)"
proof -
  let ?found = "\<lparr>title = ''Dune'', author = ''Herbert'', year = ''1965'', status = Available\<rparr>"
  have h2: "py_int ascii_builtins (py_strip ascii_builtins '' 1 '') = Some 1" by code_simp
  have h3: "search_by_id three_books (str 1) = Some ?found" by code_simp
  have h4: "check_input ascii_builtins 0 ''1'' = 1" by code_simp
  have sa: "\<forall>(k, b) \<in> set (books three_books). author b = author ?found \<longrightarrow> k = str 1"
    by code_simp
  have sy: "\<forall>(k, b) \<in> set (books three_books). year b = year ?found \<longrightarrow> k = str 1"
    by code_simp
  have cur: "current_id three_books = 3" by (simp add: three_books_def)
  have ks: "map fst (AList.delete (str 1) (books three_books)) = [''2'', ''3'']" by code_simp
  from delete_then_not_found [OF run_three_books h2 h3 h4] sa sy cur ks
  have "\<exists>lib'. delete ascii_builtins three_books '' 1 '' ''1'' = Inr (lib', Deleted 1) \<and>
      search_by_id lib' (str 1) = None \<and>
      (\<forall>(k, ids) \<in> set (years lib') \<union> set (authors lib'). 1 \<notin> set ids) \<and>
      map_of (authors lib') ''Herbert'' = None \<and>
      map_of (years lib') ''1965'' = None \<and>
      map fst (books lib') = [''2'', ''3''] \<and>
      current_id lib' = 3"
    by auto
  with run_three_books h2 h3 h4 show ?thesis by blast
qed

section \<open>Search by title\<close>

lemma update_fresh: "k \<notin> fst ` set al \<Longrightarrow> AList.update k v al = al @ [(k, v)]"
  by (induction al) auto

lemma res_books_loop_filter:
  assumes "distinct (map fst bks)" "fst ` set res \<inter> fst ` set bks = {}"
  shows "res_books_loop P t bks res = res @ filter (\<lambda>(k, b). py_lower P (title b) = py_lower P t) bks"
  using assms
proof (induction bks arbitrary: res)
  case Nil
  then show ?case by simp
next
  case (Cons p bks)
  obtain k b where p: "p = (k, b)" by (cases p)
  from Cons.prems p have k: "k \<notin> fst ` set res" "k \<notin> fst ` set bks" and d: "distinct (map fst bks)"
    and dj: "fst ` set res \<inter> fst ` set bks = {}"
    by auto
  show ?case
  proof (cases "py_lower P (title b) = py_lower P t")
    case True
    from k dj have "fst ` set (res @ [(k, b)]) \<inter> fst ` set bks = {}" by auto
    from Cons.IH [OF d this] True k(1) show ?thesis by (simp add: p update_fresh)
  next
    case False
    from Cons.IH [OF d dj] False show ?thesis by (simp add: p)
  qed
qed

lemma search_by_title_filter:
  "distinct (map fst (books lib)) \<Longrightarrow>
     search_by_title P lib t = filter (\<lambda>(k, b). py_lower P (title b) = py_lower P t) (books lib)"
  using res_books_loop_filter [of "books lib" "[]" P t] by (simp add: search_by_title_def)

lemma of_char_ascii_lower_char:
  "(of_char (ascii_lower_char x) :: nat) =
     (if 65 \<le> (of_char x :: nat) \<and> (of_char x :: nat) \<le> 90 then of_char x + 32 else of_char x)"
  by (simp add: ascii_lower_char_def Let_def)

lemma ascii_lower_char_eq: "ascii_lower_char c = ascii_lower_char d \<longleftrightarrow> same_letter c d"
proof -
  have "ascii_lower_char c = ascii_lower_char d \<longleftrightarrow>
      (of_char (ascii_lower_char c) :: nat) = of_char (ascii_lower_char d)"
    by (simp only: of_char_eq_iff)
  also have "\<dots> \<longleftrightarrow> same_letter c d"
    unfolding of_char_ascii_lower_char same_letter_def Let_def by presburger
  finally show ?thesis .
qed

lemma ascii_lower_eq: "ascii_lower s = ascii_lower t \<longleftrightarrow> caseless_eq s t"
  unfolding ascii_lower_def caseless_eq_def
proof (induction s arbitrary: t)
  case Nil
  then show ?case by auto
next
  case (Cons c s)
  then show ?case by (cases t) (auto simp: ascii_lower_char_eq)
qed

lemma caseless_Dune: "caseless_eq ''Dune'' ''dune''" "\<not> caseless_eq ''Dune'' ''Dune ''"
  by (simp_all add: caseless_eq_def) code_simp

text \<open>
  C9. With built-in functions that are, on ASCII text, the functions given above:
  in a library (a dictionary of records, so with distinct keys)
  \<open>search_by_title\<close> returns exactly the records whose title, in lower case, is the
  query in lower case. When title and query are ASCII text this says: they have the
  same length and at each place the same character or the same letter in the other
  case. So a record titled "Dune" is found by the query "dune" and is not found by the
  query "Dune " with a space at its end.
\<close>

theorem search_by_title_matches:
  assumes "distinct (map fst (books lib))" and "agrees_on_ascii P"
  shows "((k, b) \<in> set (search_by_title P lib t) \<longleftrightarrow>
            (k, b) \<in> set (books lib) \<and> py_lower P (title b) = py_lower P t) \<and>
         (is_ascii (title b) \<and> is_ascii t \<longrightarrow>
            ((k, b) \<in> set (search_by_title P lib t) \<longleftrightarrow>
               (k, b) \<in> set (books lib) \<and> caseless_eq (title b) t)) \<and>
         ((k, b) \<in> set (books lib) \<and> title b = ''Dune'' \<longrightarrow>
            (k, b) \<in> set (search_by_title P lib ''dune'') \<and>
            (k, b) \<notin> set (search_by_title P lib ''Dune ''))"
proof -
  have low: "py_lower P x = py_lower P y \<longleftrightarrow> caseless_eq x y" if "is_ascii x" "is_ascii y" for x y
    using assms(2) that by (simp add: agrees_on_ascii_def ascii_lower_eq)
  have asc: "is_ascii ''Dune''" "is_ascii ''dune''" "is_ascii ''Dune ''" by code_simp+
  have mem: "(k, b) \<in> set (search_by_title P lib q) \<longleftrightarrow>
      (k, b) \<in> set (books lib) \<and> py_lower P (title b) = py_lower P q" for q
    by (auto simp: search_by_title_filter [OF assms(1)])
  have dune: "py_lower P ''Dune'' = py_lower P ''dune''" "py_lower P ''Dune'' \<noteq> py_lower P ''Dune ''"
    using low [OF asc(1) asc(2)] low [OF asc(1) asc(3)] caseless_Dune by simp_all
  show ?thesis
    using mem [of t] mem [of "''dune''"] mem [of "''Dune ''"] low [of "title b" t] dune
    by auto
qed

lemma agrees_ascii_builtins: "agrees_on_ascii ascii_builtins"
  by (simp add: agrees_on_ascii_def ascii_builtins_def)

theorem search_by_title_matches_witness:
  "distinct (map fst (books (fst (add_book three_books ''Dune'' ''Villeneuve'' ''2021'')))) \<and>
   agrees_on_ascii ascii_builtins \<and>
   search_by_title ascii_builtins (fst (add_book three_books ''Dune'' ''Villeneuve'' ''2021'')) ''dUNE'' =
     [(''1'', \<lparr>title = ''Dune'', author = ''Herbert'', year = ''1965'', status = Available\<rparr>),
      (''4'', \<lparr>title = ''Dune'', author = ''Villeneuve'', year = ''2021'', status = Available\<rparr>)] \<and>
   ((''1'', \<lparr>title = ''Dune'', author = ''Herbert'', year = ''1965'', status = Available\<rparr>)
      \<in> set (search_by_title ascii_builtins (fst (add_book three_books ''Dune'' ''Villeneuve'' ''2021'')) ''dune'')) \<and>
   ((''1'', \<lparr>title = ''Dune'', author = ''Herbert'', year = ''1965'', status = Available\<rparr>)
      \<notin> set (search_by_title ascii_builtins (fst (add_book three_books ''Dune'' ''Villeneuve'' ''2021'')) ''Dune '')) \<and>
   ((''2'', \<lparr>title = ''Foundation'', author = ''Asimov'', year = ''1951'', status = Available\<rparr>)
      \<notin> set (search_by_title ascii_builtins (fst (add_book three_books ''Dune'' ''Villeneuve'' ''2021'')) ''dune''))"
proof -
  let ?lib = "fst (add_book three_books ''Dune'' ''Villeneuve'' ''2021'')"
  let ?b = "\<lparr>title = ''Dune'', author = ''Herbert'', year = ''1965'', status = Available\<rparr>"
  let ?f = "\<lparr>title = ''Foundation'', author = ''Asimov'', year = ''1951'', status = Available\<rparr>"
  have d: "distinct (map fst (books ?lib))" by code_simp
  have s: "search_by_title ascii_builtins ?lib ''dUNE'' =
     [(''1'', ?b), (''4'', \<lparr>title = ''Dune'', author = ''Villeneuve'', year = ''2021'', status = Available\<rparr>)]"
    by code_simp
  have m: "(''1'', ?b) \<in> set (books ?lib)" by code_simp
  have ti: "title ?b = ''Dune''" by simp
  from search_by_title_matches [OF d agrees_ascii_builtins, of "''1''" ?b "''dune''"] m ti
  have one: "(''1'', ?b) \<in> set (search_by_title ascii_builtins ?lib ''dune'') \<and>
        (''1'', ?b) \<notin> set (search_by_title ascii_builtins ?lib ''Dune '')"
    by blast
  have af: "is_ascii (title ?f)" "is_ascii ''dune''" "\<not> caseless_eq (title ?f) ''dune''"
    by (simp_all add: caseless_eq_def) code_simp+
  from search_by_title_matches [OF d agrees_ascii_builtins, of "''2''" ?f "''dune''"] af
  have two: "(''2'', ?f) \<notin> set (search_by_title ascii_builtins ?lib ''dune'')"
    by blast
  from d s one two agrees_ascii_builtins show ?thesis by blast
qed

section \<open>Ids that are not found, searches without a match\<close>

text \<open>
  C6. Whatever the library and whatever the built-in functions return: when \<open>int\<close>
  reads from the line typed the id of no record, the menu's delete and change of
  status return normally with the message that the book was not found and leave the
  library as it is; a search by an author or a year that is no key of the index, and
  a search by a title that no record has, return the empty dictionary. None of them
  raises.
\<close>

theorem not_found_is_not_fatal:
  "(py_int P (py_strip P id_in) = Some i \<and> search_by_id lib (str i) = None \<longrightarrow>
      delete P lib id_in decision_in = Inr (lib, NotFound i)) \<and>
   (py_int P id_in = Some i \<and> search_by_id lib (str i) = None \<longrightarrow>
      change_status P lib id_in choice_in = Inr (lib, NotFound i)) \<and>
   (map_of (authors lib) v = None \<longrightarrow> search_by_author_or_year lib v ''author'' = Inr []) \<and>
   (map_of (years lib) v = None \<longrightarrow> search_by_author_or_year lib v ''year'' = Inr []) \<and>
   ((\<forall>(k, b) \<in> set (books lib). py_lower P (title b) \<noteq> py_lower P t) \<longrightarrow>
      search_by_title P lib t = [])"
proof -
  have "res_books_loop P t bks [] = []"
    if "\<forall>(k, b) \<in> set bks. py_lower P (title b) \<noteq> py_lower P t" for bks
    using that by (induction bks) auto
  then show ?thesis
    by (auto simp: delete_def change_status_def search_by_author_or_year_def search_by_title_def)
qed

theorem not_found_is_not_fatal_witness:
  "py_int ascii_builtins (py_strip ascii_builtins ''7'') = Some 7 \<and>
   search_by_id session_lib (str 7) = None \<and>
   delete ascii_builtins session_lib ''7'' ''1'' = Inr (session_lib, NotFound 7) \<and>
   py_int ascii_builtins ''7'' = Some 7 \<and>
   change_status ascii_builtins session_lib ''7'' ''x'' = Inr (session_lib, NotFound 7) \<and>
   map_of (authors session_lib) ''Herbert'' = None \<and>
   search_by_author_or_year session_lib ''Herbert'' ''author'' = Inr [] \<and>
   map_of (years session_lib) ''1965'' = None \<and>
   search_by_author_or_year session_lib ''1965'' ''year'' = Inr [] \<and>
   list_all (\<lambda>(k, b). py_lower ascii_builtins (title b) \<noteq> py_lower ascii_builtins ''Dune'')
     (books session_lib) \<and>
   search_by_title ascii_builtins session_lib ''Dune'' = []"
proof -
  have h1: "py_int ascii_builtins (py_strip ascii_builtins ''7'') = Some 7" by code_simp
  have h2: "search_by_id session_lib (str 7) = None" by code_simp
  have h3: "py_int ascii_builtins ''7'' = Some 7" by code_simp
  have h4: "map_of (authors session_lib) ''Herbert'' = None" by code_simp
  have h5: "map_of (years session_lib) ''1965'' = None" by code_simp
  have h6: "list_all (\<lambda>(k, b). py_lower ascii_builtins (title b) \<noteq> py_lower ascii_builtins ''Dune'')
     (books session_lib)" by code_simp
  then have h6': "\<forall>(k, b) \<in> set (books session_lib).
      py_lower ascii_builtins (title b) \<noteq> py_lower ascii_builtins ''Dune''"
    by (simp add: list_all_iff)
  from not_found_is_not_fatal [of ascii_builtins "''7''" 7 session_lib "''1''" "''x''" "''Herbert''" "''Dune''"]
    not_found_is_not_fatal [of ascii_builtins "''7''" 7 session_lib "''1''" "''x''" "''1965''" "''Dune''"]
    h1 h2 h3 h4 h5 h6 h6'
  show ?thesis by simp
qed

section \<open>The status of a record\<close>

lemma set_update_subset: "set (AList.update k v al) \<subseteq> insert (k, v) (set al)"
  by (induction al) auto

lemma set_delete_subset: "set (AList.delete k al) \<subseteq> set al"
  by (induction al) auto

lemma status_ok_add_book: "status_ok lib \<Longrightarrow> status_ok (fst (add_book lib t a y))"
  using set_update_subset [of "str (current_id lib + 1)" _ "books lib"]
  by (fastforce simp: status_ok_def add_book_def Let_def)

lemma status_ok_delete_book: "status_ok lib \<Longrightarrow> delete_book lib book = Inr lib' \<Longrightarrow> status_ok lib'"
  using set_delete_subset [of "str (book_id book)" "books lib"]
  by (fastforce simp: status_ok_def dest: delete_book_fields)

lemma status_ok_change_book_status:
  "status_ok lib \<Longrightarrow> s = Available \<or> s = Checked_out \<Longrightarrow>
     change_book_status lib book s = Inr lib' \<Longrightarrow> status_ok lib'"
  using set_update_subset [of "str (book_id book)" _ "books lib"]
  by (fastforce simp: status_ok_def change_book_status_def split: option.splits)

lemma status_ok_step:
  assumes "status_ok lib" "step P lib c = Inr (lib', out)"
  shows "status_ok lib'"
proof (cases c)
  case (Choice1 now title_in author_in year_in)
  with assms(2) have l: "lib' = fst (add P lib now title_in author_in year_in)" by auto
  have "lib' = lib \<or> lib' = fst (add_book lib (py_strip P title_in) (py_strip P author_in) (py_strip P year_in))"
    unfolding l by (auto simp: add_def Let_def split: option.splits prod.splits if_splits)
  with assms(1) status_ok_add_book [of lib] show ?thesis by auto
next
  case (Choice2 id_in decision_in)
  with assms show ?thesis
    by (auto simp: delete_def Let_def split: option.splits sum.splits if_splits
        dest: status_ok_delete_book)
next
  case (Choice5 id_in choice_in)
  with assms show ?thesis
    by (auto simp: change_status_def Let_def split: option.splits sum.splits if_splits
        dest: status_ok_change_book_status)
qed

lemma status_ok_run:
  "status_ok lib \<Longrightarrow> run P lib cs = Inr (lib', outs) \<Longrightarrow> status_ok lib'"
proof (induction cs arbitrary: lib outs)
  case Nil
  then show ?case by simp
next
  case (Cons c cs)
  from Cons.prems(2) obtain l out outs' where s: "step P lib c = Inr (l, out)"
    and r: "run P l cs = Inr (lib', outs')"
    by (auto split: sum.splits prod.splits)
  from status_ok_step [OF Cons.prems(1) s] have "status_ok l" .
  from Cons.IH [OF this r] show ?case .
qed

text \<open>
  C7. \<open>add_book\<close> creates a book with the status Available, the menu's change of
  status writes one of the two statuses of main.py and no other, and so in every
  state that a session reaches from the empty library the status of every record is
  one of these two.
\<close>

theorem status_is_one_of_two:
  assumes "run P start_data cmds = Inr (lib, outs)"
  shows "(\<forall>(k, b) \<in> set (books lib). status b = Available \<or> status b = Checked_out) \<and>
         status (snd (add_book lib t a y)) = Available \<and>
         (\<forall>lib' j s. change_status P lib id_in choice_in = Inr (lib', StatusChanged j s) \<longrightarrow>
            s = Available \<or> s = Checked_out)"
proof -
  have "status_ok start_data" by (simp add: status_ok_def start_data_def)
  from status_ok_run [OF this assms] have "status_ok lib" .
  moreover have "status (snd (add_book lib t a y)) = Available"
    by (simp add: add_book_def Let_def)
  moreover have "\<forall>lib' j s. change_status P lib id_in choice_in = Inr (lib', StatusChanged j s) \<longrightarrow>
            s = Available \<or> s = Checked_out"
    by (auto simp: change_status_def Let_def split: option.splits sum.splits if_splits)
  ultimately show ?thesis by (simp add: status_ok_def)
qed

theorem status_is_one_of_two_witness:
  "run ascii_builtins start_data session = Inr (session_lib, session_outs) \<and>
   map (status \<circ> snd) (books session_lib) = [Checked_out, Available] \<and>
   list_all (\<lambda>(k, b). status b = Available \<or> status b = Checked_out) (books session_lib) \<and>
   status (snd (add_book session_lib ''Emma'' ''Austen'' ''1815'')) = Available \<and>
   (\<exists>lib' s. change_status ascii_builtins session_lib ''3'' ''2'' = Inr (lib', StatusChanged 3 s) \<and>
      (s = Available \<or> s = Checked_out))"
proof -
  note t = status_is_one_of_two [OF run_session, of "''Emma''" "''Austen''" "''1815''" "''3''" "''2''"]
  have "map_sum id snd (change_status ascii_builtins session_lib ''3'' ''2'') = Inr (StatusChanged 3 Checked_out)"
    by code_simp
  then obtain lib' where c: "change_status ascii_builtins session_lib ''3'' ''2'' = Inr (lib', StatusChanged 3 Checked_out)"
    by (cases "change_status ascii_builtins session_lib ''3'' ''2''") auto
  with t have "Checked_out = Available \<or> Checked_out = Checked_out" by blast
  with c have "\<exists>lib' s. change_status ascii_builtins session_lib ''3'' ''2'' = Inr (lib', StatusChanged 3 s) \<and>
      (s = Available \<or> s = Checked_out)" by blast
  moreover have "map (status \<circ> snd) (books session_lib) = [Checked_out, Available]"
    by (simp add: session_lib_def)
  ultimately show ?thesis using t run_session by (simp add: list_all_iff)
qed

section \<open>Validation of the year\<close>

lemma add_rejected_unchanged:
  "(\<forall>b. snd (add P lib now title_in author_in year_in) \<noteq> Added b) \<Longrightarrow>
     fst (add P lib now title_in author_in year_in) = lib"
  by (auto simp: add_def Let_def split: option.splits prod.splits if_splits)

lemma add_accepted_year:
  "add P lib now title_in author_in year_in = (lib', Added b) \<Longrightarrow>
     (\<exists>n. py_int P (py_strip P year_in) = Some n \<and> 868 \<le> n \<and> n \<le> now) \<and>
     year b = py_strip P year_in"
  by (auto simp: add_def Let_def add_book_def split: option.splits prod.splits if_splits)

lemma py_int_500:
  assumes "agrees_on_ascii P"
  shows "py_int P (py_strip P ''500'') = Some 500"
proof -
  have "is_ascii ''500''" "ascii_strip ''500'' = ''500''" "ascii_int ''500'' = Some 500"
    by code_simp+
  with assms show ?thesis by (simp add: agrees_on_ascii_def)
qed

lemma py_int_abcd:
  assumes "agrees_on_ascii P"
  shows "py_int P (py_strip P ''abcd'') = None"
proof -
  have "is_ascii ''abcd''" "ascii_strip ''abcd'' = ''abcd''" "ascii_int ''abcd'' = None"
    by code_simp+
  with assms show ?thesis by (simp add: agrees_on_ascii_def)
qed

text \<open>
  C8. With built-in functions that are, on ASCII text, the functions given above:
  the menu's add rejects the year "500" (it is below 868, whatever the current
  year) and the year "abcd" (it is no number), and in both cases the library is
  unchanged. In general, when add accepts, \<open>int\<close> reads from the year it was given
  (stripped) an integer from 868 to the current year, and that text is the year of
  the new book; and whenever add does not accept, the library is unchanged.
\<close>

theorem add_rejects_invalid_year:
  assumes "agrees_on_ascii P"
  shows
  "fst (add P lib now title_in author_in ''500'') = lib \<and>
   (\<forall>b. snd (add P lib now title_in author_in ''500'') \<noteq> Added b) \<and>
   (py_strip P title_in \<noteq> [] \<and> py_strip P author_in \<noteq> [] \<longrightarrow>
      snd (add P lib now title_in author_in ''500'') = YearOutOfRange) \<and>
   fst (add P lib now title_in author_in ''abcd'') = lib \<and>
   (\<forall>b. snd (add P lib now title_in author_in ''abcd'') \<noteq> Added b) \<and>
   (py_strip P title_in \<noteq> [] \<and> py_strip P author_in \<noteq> [] \<longrightarrow>
      snd (add P lib now title_in author_in ''abcd'') = YearNotDigits) \<and>
   (\<forall>lib' b. add P lib now title_in author_in year_in = (lib', Added b) \<longrightarrow>
      (\<exists>n. py_int P (py_strip P year_in) = Some n \<and> 868 \<le> n \<and> n \<le> now) \<and>
      year b = py_strip P year_in) \<and>
   ((\<forall>b. snd (add P lib now title_in author_in year_in) \<noteq> Added b) \<longrightarrow>
      fst (add P lib now title_in author_in year_in) = lib)"
proof -
  have a: "fst (add P lib now title_in author_in ''500'') = lib \<and>
      (\<forall>b. snd (add P lib now title_in author_in ''500'') \<noteq> Added b) \<and>
      (py_strip P title_in \<noteq> [] \<and> py_strip P author_in \<noteq> [] \<longrightarrow>
         snd (add P lib now title_in author_in ''500'') = YearOutOfRange)"
    by (simp add: add_def Let_def py_int_500 [OF assms])
  have b: "fst (add P lib now title_in author_in ''abcd'') = lib \<and>
      (\<forall>b. snd (add P lib now title_in author_in ''abcd'') \<noteq> Added b) \<and>
      (py_strip P title_in \<noteq> [] \<and> py_strip P author_in \<noteq> [] \<longrightarrow>
         snd (add P lib now title_in author_in ''abcd'') = YearNotDigits)"
    by (simp add: add_def Let_def py_int_abcd [OF assms])
  from a b add_accepted_year [of P lib now title_in author_in year_in]
    add_rejected_unchanged [of P lib now title_in author_in year_in]
  show ?thesis by blast
qed

theorem add_rejects_invalid_year_witness:
  "agrees_on_ascii ascii_builtins \<and>
   py_strip ascii_builtins ''Dune'' \<noteq> [] \<and> py_strip ascii_builtins ''Herbert'' \<noteq> [] \<and>
   add ascii_builtins session_lib 2024 ''Dune'' ''Herbert'' ''500'' = (session_lib, YearOutOfRange) \<and>
   add ascii_builtins session_lib 2024 ''Dune'' ''Herbert'' ''abcd'' = (session_lib, YearNotDigits) \<and>
   add ascii_builtins session_lib 2024 ''Dune'' ''Herbert'' ''2025'' = (session_lib, YearOutOfRange) \<and>
   (\<exists>lib' b. add ascii_builtins session_lib 2024 ''Dune'' ''Herbert'' '' 1965 '' = (lib', Added b) \<and>
      (\<exists>n. py_int ascii_builtins (py_strip ascii_builtins '' 1965 '') = Some n \<and> 868 \<le> n \<and> n \<le> 2024) \<and>
      year b = ''1965'')"
proof -
  have t: "py_strip ascii_builtins ''Dune'' \<noteq> []" and a: "py_strip ascii_builtins ''Herbert'' \<noteq> []"
    by code_simp+
  have r: "add ascii_builtins session_lib 2024 ''Dune'' ''Herbert'' ''2025'' = (session_lib, YearOutOfRange)"
    by code_simp
  have ok: "add ascii_builtins session_lib 2024 ''Dune'' ''Herbert'' '' 1965 '' =
     (fst (add_book session_lib ''Dune'' ''Herbert'' ''1965''),
      Added \<lparr>title = ''Dune'', author = ''Herbert'', year = ''1965'', status = Available, book_id = 4\<rparr>)"
    by code_simp
  have s: "py_strip ascii_builtins '' 1965 '' = ''1965''" by code_simp
  from add_rejects_invalid_year [OF agrees_ascii_builtins, of session_lib 2024 "''Dune''" "''Herbert''" "'' 1965 ''"]
    t a ok s
  have "add ascii_builtins session_lib 2024 ''Dune'' ''Herbert'' ''500'' = (session_lib, YearOutOfRange)"
    and "add ascii_builtins session_lib 2024 ''Dune'' ''Herbert'' ''abcd'' = (session_lib, YearNotDigits)"
    and "\<exists>n. py_int ascii_builtins (py_strip ascii_builtins '' 1965 '') = Some n \<and> 868 \<le> n \<and> n \<le> 2024"
    by (auto simp: prod_eq_iff)
  with t a r ok s agrees_ascii_builtins show ?thesis by simp
qed

section \<open>Saving a library and loading it again\<close>

lemma skip_ws_Cons: "\<not> is_ws c \<Longrightarrow> skip_ws (c # s) = c # s"
  by (simp add: skip_ws_def)

lemma skip_ws_newline_indent: "skip_ws (newline_indent l @ s) = skip_ws s"
proof -
  have "dropWhile is_ws (replicate (4 * l) CHR '' '' @ s) = dropWhile is_ws s"
    by (rule dropWhile_append2) (simp add: is_ws_def)
  then show ?thesis by (simp add: skip_ws_def newline_indent_def is_ws_def)
qed

lemma hex_val_hex_digit: "k < 16 \<Longrightarrow> hex_val (hex_digit k) = Some k"
  by (auto simp: hex_val_def hex_digit_def Let_def)

lemma scanstring_escape_char:
  "scanstring acc (escape_char c @ rest) = scanstring (acc @ [c]) rest"
proof -
  consider (named) "c = dquote \<or> c = backslash \<or> c = newline \<or> c = CHR 0x0D \<or> c = CHR 0x09
      \<or> c = CHR 0x08 \<or> c = CHR 0x0C"
    | (ctl) "\<not> (c = dquote \<or> c = backslash \<or> c = newline \<or> c = CHR 0x0D \<or> c = CHR 0x09
      \<or> c = CHR 0x08 \<or> c = CHR 0x0C)" "(of_char c :: nat) < 32"
    | (plain) "c \<noteq> dquote" "c \<noteq> backslash" "\<not> (of_char c :: nat) < 32"
    by blast
  then show ?thesis
  proof cases
    case named
    then show ?thesis
      by (auto simp: escape_char_def unescape_def dquote_def backslash_def newline_def)
  next
    case ctl
    let ?n = "of_char c :: nat"
    have h: "hex_val (hex_digit (?n div 16)) = Some (?n div 16)"
      "hex_val (hex_digit (?n mod 16)) = Some (?n mod 16)"
      using ctl(2) by (simp_all add: hex_val_hex_digit)
    have z: "hex_val CHR ''0'' = Some 0" by (simp add: hex_val_def)
    have c: "char_of (16 * (?n div 16) + ?n mod 16) = c" by simp
    have d: "?n div 16 < 8" using ctl(2) by simp
    have "escape_char c = [backslash, CHR ''u'', CHR ''0'', CHR ''0'',
              hex_digit (?n div 16), hex_digit (?n mod 16)]"
      using ctl by (simp add: escape_char_def)
    then show ?thesis using h z c d
      by (simp add: unicode_escape_def dquote_def backslash_def)
  next
    case plain
    then show ?thesis by (auto simp: escape_char_def dquote_def backslash_def newline_def)
  qed
qed

lemma scanstring_concat:
  "scanstring acc (concat (map escape_char s) @ dquote # rest) = Some (acc @ s, rest)"
  by (induction s arbitrary: acc) (simp_all add: scanstring_escape_char)

lemma scanstring_encode:
  "encode_basestring s @ rest = dquote # concat (map escape_char s) @ dquote # rest"
  by (simp add: encode_basestring_def)


lemma str_nat_digits: "c \<in> set (str_nat n) \<Longrightarrow> is_digit c"
proof (induction n rule: str_nat.induct)
  case (1 n)
  have d: "is_digit (digit_char k)" if "k < 10" for k
    using that by (simp add: is_digit_def digit_char_def)
  show ?case
  proof (cases "n < 10")
    case True
    with 1(2) d [of n] show ?thesis by (simp add: str_nat.simps [of n])
  next
    case False
    with 1 d [of "n mod 10"] show ?thesis by (auto simp: str_nat.simps [of n])
  qed
qed

lemma digits_val_str_nat: "digits_val (str_nat n) = n"
proof (induction n rule: str_nat.induct)
  case (1 n)
  have d: "digit_val (digit_char k) = k" if "k < 10" for k
    using that by (simp add: digit_val_def digit_char_def)
  show ?case
  proof (cases "n < 10")
    case True
    with d [of n] show ?thesis by (simp add: str_nat.simps [of n] digits_val_def)
  next
    case False
    with 1 d [of "n mod 10"] show ?thesis
      by (simp add: str_nat.simps [of n] digits_val_def)
  qed
qed

lemma digit_char_0: "digit_char 0 = CHR ''0''"
  by code_simp

lemma hd_str_nat: "hd (str_nat n) = CHR ''0'' \<longleftrightarrow> n = 0"
proof (induction n rule: str_nat.induct)
  case (1 n)
  have d: "digit_char k = CHR ''0'' \<longleftrightarrow> k = 0" if "k < 10" for k
    using that digit_char_inj [of k 0] digit_char_0 by auto
  show ?case
  proof (cases "n < 10")
    case True
    with d [of n] show ?thesis by (simp add: str_nat.simps [of n])
  next
    case False
    with 1 show ?thesis
      by (simp add: str_nat.simps [of n] str_nat_not_Nil)
  qed
qed

lemma scan_nat_str_nat:
  assumes "rest = [] \<or> \<not> is_digit (hd rest)"
  shows "scan_nat (str_nat n @ rest) = Some (n, rest)"
proof -
  from assms have tw: "takeWhile is_digit (str_nat n @ rest) = str_nat n"
    and dw: "dropWhile is_digit (str_nat n @ rest) = rest"
    by (cases rest; simp add: str_nat_digits)+
  show ?thesis
  proof (cases "n = 0")
    case True
    have "str_nat 0 = ''0''" by (simp add: str_nat.simps [of 0] digit_char_0)
    with True tw show ?thesis by (simp add: scan_nat_def)
  next
    case False
    with tw dw show ?thesis
      by (simp add: scan_nat_def Let_def str_nat_not_Nil hd_str_nat digits_val_str_nat)
  qed
qed

lemma scan_int_str:
  assumes "rest = [] \<or> \<not> is_digit (hd rest)"
  shows "scan_int (str i @ rest) = Some (i, rest)"
proof (cases "i < 0")
  case True
  with scan_nat_str_nat [OF assms] show ?thesis by (simp add: scan_int_def str_def)
next
  case False
  obtain c cs where c: "str_nat (nat i) = c # cs"
    using str_nat_not_Nil [of "nat i"] by (cases "str_nat (nat i)") auto
  then have "c \<in> set (str_nat (nat i))" by simp
  with str_nat_no_minus have "c \<noteq> CHR ''-''" by metis
  with False c scan_nat_str_nat [OF assms, of "nat i"] show ?thesis
    by (simp add: scan_int_def str_def)
qed

lemma str_first:
  obtains c cs where "str i = c # cs" "c = CHR ''-'' \<or> is_digit c"
proof (cases "i < 0")
  case True
  then show ?thesis using that by (simp add: str_def)
next
  case False
  obtain c cs where c: "str_nat (nat i) = c # cs"
    using str_nat_not_Nil [of "nat i"] by (cases "str_nat (nat i)") auto
  then have "c \<in> set (str_nat (nat i))" by simp
  then have "is_digit c" by (rule str_nat_digits)
  with False c show ?thesis using that by (simp add: str_def)
qed

lemma parse_value_skip: "skip_ws s = skip_ws s' \<Longrightarrow> parse_value n s = parse_value n s'"
  by (cases n) simp_all

lemma parse_elems_skip: "skip_ws s = skip_ws s' \<Longrightarrow> parse_elems n acc s = parse_elems n acc s'"
  by (cases n) (simp_all add: parse_value_skip [of s s'])

lemma parse_members_skip: "skip_ws s = skip_ws s' \<Longrightarrow> parse_members n acc s = parse_members n acc s'"
  by (cases n) simp_all

lemma skip_ws_space: "skip_ws (CHR '' '' # s) = skip_ws s"
  by (simp add: skip_ws_def is_ws_def)

lemma join_Cons: "xs \<noteq> [] \<Longrightarrow> join sep (x # xs) = x @ sep @ join sep xs"
  by (cases xs) simp_all

lemma is_ws_simps:
  "\<not> is_ws dquote" "\<not> is_ws CHR '',''" "\<not> is_ws CHR '':''" "\<not> is_ws CHR '']''" "\<not> is_ws CHR ''}''"
  "\<not> is_ws CHR ''[''" "\<not> is_ws CHR ''{''" "\<not> is_ws CHR ''-''"
  by (simp_all add: is_ws_def dquote_def newline_def)

lemma is_digit_not_ws: "is_digit c \<Longrightarrow> \<not> is_ws c"
  by (auto simp: is_digit_def is_ws_def newline_def)

lemma is_digit_not_special:
  "is_digit c \<Longrightarrow> c \<noteq> dquote \<and> c \<noteq> CHR ''{'' \<and> c \<noteq> CHR ''['' \<and> c \<noteq> CHR '']'' \<and> c \<noteq> CHR ''}''"
  by (auto simp: is_digit_def dquote_def)

lemma value_end_not_digit: "value_end r \<Longrightarrow> r = [] \<or> \<not> is_digit (hd r)"
  by (auto simp: value_end_def is_digit_def newline_def)

lemma value_end_not_float: "value_end r \<Longrightarrow> \<not> float_part r"
  by (auto simp: value_end_def float_part_def newline_def)

lemma dumps_first:
  obtains c cs where "dumps l v = c # cs" "\<not> is_ws c" "c \<noteq> CHR '']''" "c \<noteq> CHR ''}''"
proof (cases v)
  case (JInt i)
  obtain c cs where "str i = c # cs" "c = CHR ''-'' \<or> is_digit c" by (rule str_first)
  with JInt that [of c cs] show ?thesis
    using is_digit_not_ws [of c] is_digit_not_special [of c] by (auto simp: is_ws_simps)
next
  case (JStr s)
  with that [of dquote "concat (map escape_char s) @ [dquote]"] show ?thesis
    by (simp add: encode_basestring_def is_ws_simps) (simp add: dquote_def)
next
  case (JList xs)
  with that [of "CHR ''[''"] show ?thesis by (cases "xs = []") (simp_all add: is_ws_simps)
next
  case (JDict kvs)
  with that [of "CHR ''{''"] show ?thesis by (cases "kvs = []") (simp_all add: is_ws_simps)
qed

lemma parse_elems_dumps:
  assumes "xs \<noteq> []"
    and "\<And>x n rest. x \<in> set xs \<Longrightarrow> size x < n \<Longrightarrow> value_end rest \<Longrightarrow>
           parse_value n (dumps l x @ rest) = Some (x, rest)"
    and "size_list size xs < n"
  shows "parse_elems n acc
           (join (CHR '','' # newline_indent l) (map (dumps l) xs) @ newline_indent l' @ CHR '']'' # rest) =
         Some (acc @ xs, rest)"
  using assms
proof (induction xs arbitrary: n acc rule: list_nonempty_induct)
  case (single x)
  from single(2) obtain m where n: "n = Suc m" and m: "size x < m" by (cases n) auto
  let ?R = "newline_indent l' @ CHR '']'' # rest"
  have ve: "value_end ?R" by (simp add: value_end_def newline_indent_def)
  have pv: "parse_value m (dumps l x @ ?R) = Some (x, ?R)"
    using single(1) [OF _ m ve] by simp
  have sk: "skip_ws ?R = CHR '']'' # rest"
    by (simp add: skip_ws_newline_indent skip_ws_Cons is_ws_simps)
  show ?case by (simp add: n pv sk)
next
  case (cons x xs)
  from cons(4) obtain m where n: "n = Suc m" and m: "size x < m" "size_list size xs < m"
    by (cases n) auto
  let ?T = "join (CHR '','' # newline_indent l) (map (dumps l) xs) @ newline_indent l' @ CHR '']'' # rest"
  let ?R = "CHR '','' # newline_indent l @ ?T"
  have ve: "value_end ?R" by (simp add: value_end_def)
  have pv: "parse_value m (dumps l x @ ?R) = Some (x, ?R)"
    using cons(3) [OF _ m(1) ve] by simp
  have sk: "skip_ws ?R = ?R" by (simp add: skip_ws_Cons is_ws_simps)
  have ih: "parse_elems m (acc @ [x]) ?T = Some ((acc @ [x]) @ xs, rest)"
    using cons(2) [OF _ m(2)] cons(3) by simp
  have "parse_elems m (acc @ [x]) (newline_indent l @ ?T) = parse_elems m (acc @ [x]) ?T"
    by (rule parse_elems_skip) (rule skip_ws_newline_indent)
  with ih have rec: "parse_elems m (acc @ [x]) (newline_indent l @ ?T) = Some (acc @ x # xs, rest)"
    by simp
  have j: "join (CHR '','' # newline_indent l) (map (dumps l) (x # xs)) @ newline_indent l' @ CHR '']'' # rest
      = dumps l x @ ?R"
    using cons(1) by (simp add: join_Cons)
  show ?case unfolding j by (simp add: n pv sk rec)
qed

lemma parse_members_dumps:
  assumes "kvs \<noteq> []"
    and "\<And>k v n rest. (k, v) \<in> set kvs \<Longrightarrow> size v < n \<Longrightarrow> value_end rest \<Longrightarrow>
           parse_value n (dumps l v @ rest) = Some (v, rest)"
    and "size_list (size_prod (\<lambda>x. 0) size) kvs < n"
    and "distinct (map fst (acc @ kvs))"
  shows "parse_members n acc
           (join (CHR '','' # newline_indent l)
              (map (\<lambda>kv. encode_basestring (fst kv) @ '': '' @ dumps l (snd kv)) kvs) @
            newline_indent l' @ CHR ''}'' # rest) =
         Some (acc @ kvs, rest)"
  using assms
proof (induction kvs arbitrary: n acc rule: list_nonempty_induct)
  case (single kv)
  obtain k v where kv: "kv = (k, v)" by (cases kv)
  from single(2) kv obtain m where n: "n = Suc m" and m: "size v < m" by (cases n) auto
  let ?R = "newline_indent l' @ CHR ''}'' # rest"
  have ve: "value_end ?R" by (simp add: value_end_def newline_indent_def)
  have pv: "parse_value m (dumps l v @ ?R) = Some (v, ?R)"
    using single(1) [OF _ m ve] kv by simp
  have pv': "parse_value m (CHR '' '' # dumps l v @ ?R) = Some (v, ?R)"
    using pv parse_value_skip [OF skip_ws_space, of m "dumps l v @ ?R"] by simp
  have sk: "skip_ws ?R = CHR ''}'' # rest"
    by (simp add: skip_ws_newline_indent skip_ws_Cons is_ws_simps)
  from single(3) kv have "k \<notin> fst ` set acc" by auto
  then have up: "AList.update k v acc = acc @ [(k, v)]" by (rule update_fresh)
  show ?case
    by (simp add: n kv scanstring_encode skip_ws_Cons is_ws_simps scanstring_concat pv' sk up)
next
  case (cons kv kvs)
  obtain k v where kv: "kv = (k, v)" by (cases kv)
  from cons(4) kv obtain m where n: "n = Suc m" and m: "size v < m"
    "size_list (size_prod (\<lambda>x. 0) size) kvs < m"
    by (cases n) auto
  let ?item = "\<lambda>kv. encode_basestring (fst kv) @ '': '' @ dumps l (snd kv)"
  let ?T = "join (CHR '','' # newline_indent l) (map ?item kvs) @ newline_indent l' @ CHR ''}'' # rest"
  let ?R = "CHR '','' # newline_indent l @ ?T"
  have ve: "value_end ?R" by (simp add: value_end_def)
  have mem: "(k, v) \<in> set (kv # kvs)" using kv by simp
  have pv: "parse_value m (dumps l v @ ?R) = Some (v, ?R)"
    by (rule cons(3) [OF mem m(1) ve])
  have pv': "parse_value m (CHR '' '' # dumps l v @ ?R) = Some (v, ?R)"
    using pv parse_value_skip [OF skip_ws_space, of m "dumps l v @ ?R"] by simp
  have sk: "skip_ws ?R = ?R" by (simp add: skip_ws_Cons is_ws_simps)
  from cons(5) kv have "k \<notin> fst ` set acc" by auto
  then have up: "AList.update k v acc = acc @ [(k, v)]" by (rule update_fresh)
  from cons(5) kv have d: "distinct (map fst ((acc @ [(k, v)]) @ kvs))" by simp
  have sub: "parse_value n (dumps l v @ rest) = Some (v, rest)"
    if "(k, v) \<in> set kvs" "size v < n" "value_end rest" for k v n rest
  proof -
    from that(1) have "(k, v) \<in> set (kv # kvs)" by simp
    from cons(3) [OF this that(2,3)] show ?thesis .
  qed
  have ih: "parse_members m (acc @ [(k, v)]) ?T = Some ((acc @ [(k, v)]) @ kvs, rest)"
    by (rule cons(2) [OF sub m(2) d])
  have "parse_members m (acc @ [(k, v)]) (newline_indent l @ ?T) = parse_members m (acc @ [(k, v)]) ?T"
    by (rule parse_members_skip) (rule skip_ws_newline_indent)
  with ih have rec: "parse_members m (acc @ [(k, v)]) (newline_indent l @ ?T) = Some (acc @ (k, v) # kvs, rest)"
    by simp
  have j: "join (CHR '','' # newline_indent l) (map ?item (kv # kvs)) @ newline_indent l' @ CHR ''}'' # rest
      = encode_basestring k @ '': '' @ dumps l v @ ?R"
    using cons(1) kv by (simp add: join_Cons)
  show ?case unfolding j using pv' sk up rec
    by (simp add: n kv scanstring_encode skip_ws_Cons is_ws_simps scanstring_concat)
qed

lemma parse_value_dumps:
  "wf_json v \<Longrightarrow> size v < n \<Longrightarrow> value_end rest \<Longrightarrow>
     parse_value n (dumps l v @ rest) = Some (v, rest)"
proof (induction v arbitrary: n l rest)
  case (JInt i)
  then obtain m where n: "n = Suc m" by (cases n) auto
  obtain c cs where c: "str i = c # cs" "c = CHR ''-'' \<or> is_digit c" by (rule str_first)
  then have nw: "\<not> is_ws c" and ns: "c \<noteq> dquote" "c \<noteq> CHR ''{''" "c \<noteq> CHR ''[''"
    using is_digit_not_ws [of c] is_digit_not_special [of c]
    by (auto simp: is_ws_simps dquote_def)
  from scan_int_str [OF value_end_not_digit [OF JInt(3)], of i] c
  have si: "scan_int (c # cs @ rest) = Some (i, rest)" by simp
  show ?case
    using value_end_not_float [OF JInt(3)]
    by (simp add: n c skip_ws_Cons nw ns si)
next
  case (JStr s)
  then obtain m where n: "n = Suc m" by (cases n) auto
  show ?case
    by (simp add: n scanstring_encode skip_ws_Cons is_ws_simps scanstring_concat)
next
  case (JList xs)
  from JList(3) obtain m where n: "n = Suc m" and m: "size_list size xs < m" by (cases n) auto
  show ?case
  proof (cases "xs = []")
    case True
    then show ?thesis by (simp add: n skip_ws_Cons is_ws_simps dquote_def)
  next
    case False
    let ?T = "join (CHR '','' # newline_indent (Suc l)) (map (dumps (Suc l)) xs) @
              newline_indent l @ CHR '']'' # rest"
    from False obtain x xs' where xs: "xs = x # xs'" by (cases xs) auto
    obtain c cs where c: "dumps (Suc l) x = c # cs" "\<not> is_ws c" "c \<noteq> CHR '']''"
      by (rule dumps_first)
    have "?T = c # cs @ drop (length (dumps (Suc l) x)) ?T"
      unfolding xs using c(1) by (cases xs') simp_all
    then obtain T' where T: "?T = c # T'" by blast
    have sk: "skip_ws (newline_indent (Suc l) @ ?T) = c # T'"
      unfolding skip_ws_newline_indent T using c(2) by (rule skip_ws_Cons)
    have ih: "\<And>x n rest. x \<in> set xs \<Longrightarrow> size x < n \<Longrightarrow> value_end rest \<Longrightarrow>
           parse_value n (dumps (Suc l) x @ rest) = Some (x, rest)"
      using JList(1,2) by simp
    from parse_elems_dumps [OF False ih m, where acc = "[]" and l' = l and rest = rest]
    have pe: "parse_elems m [] (c # T') = Some (xs, rest)" unfolding T by simp
    have "dumps l (JList xs) @ rest = CHR ''['' # newline_indent (Suc l) @ ?T"
      using False by simp
    then show ?thesis
      by (simp add: n skip_ws_Cons is_ws_simps sk c(3) pe dquote_def del: dumps.simps)
  qed
next
  case (JDict kvs)
  from JDict(3) obtain m where n: "n = Suc m"
    and m: "size_list (size_prod (\<lambda>x. 0) size) kvs < m" by (cases n) auto
  show ?case
  proof (cases "kvs = []")
    case True
    then show ?thesis by (simp add: n skip_ws_Cons is_ws_simps dquote_def)
  next
    case False
    let ?item = "\<lambda>kv. encode_basestring (fst kv) @ '': '' @ dumps (Suc l) (snd kv)"
    let ?T = "join (CHR '','' # newline_indent (Suc l)) (map ?item kvs) @
              newline_indent l @ CHR ''}'' # rest"
    from False obtain kv kvs' where kvs: "kvs = kv # kvs'" by (cases kvs) auto
    have "?T = dquote # drop 1 ?T"
      unfolding kvs by (cases kvs') (simp_all add: encode_basestring_def)
    then obtain T' where T: "?T = dquote # T'" by blast
    have sk: "skip_ws (newline_indent (Suc l) @ ?T) = dquote # T'"
      unfolding skip_ws_newline_indent T by (simp add: skip_ws_Cons is_ws_simps)
    have ih: "\<And>k v n rest. (k, v) \<in> set kvs \<Longrightarrow> size v < n \<Longrightarrow> value_end rest \<Longrightarrow>
           parse_value n (dumps (Suc l) v @ rest) = Some (v, rest)"
    proof -
      fix k v n rest
      assume kv: "(k, v) \<in> set kvs" and s: "size v < n" and ve: "value_end rest"
      from kv JDict(2) have "wf_json v" by auto
      from JDict(1) [OF kv _ this s ve] show "parse_value n (dumps (Suc l) v @ rest) = Some (v, rest)"
        by simp
    qed
    from JDict(2) have d: "distinct (map fst ([] @ kvs))" by simp
    from parse_members_dumps [OF False ih m d, where l' = l and rest = rest]
    have pm: "parse_members m [] (dquote # T') = Some (kvs, rest)" unfolding T by simp
    have "dumps l (JDict kvs) @ rest = CHR ''{'' # newline_indent (Suc l) @ ?T"
      using False by simp
    moreover have "dquote \<noteq> CHR ''}''" by (simp add: dquote_def)
    moreover have "CHR ''{'' \<noteq> dquote" by (simp add: dquote_def)
    ultimately show ?thesis using sk pm
      by (simp add: n skip_ws_Cons is_ws_simps del: dumps.simps)
  qed
qed

lemma length_join: "sum_list (map length ys) \<le> length (join sep ys)"
  by (induction sep ys rule: join.induct) simp_all

lemma size_list_le_sum:
  "(\<And>x. x \<in> set xs \<Longrightarrow> Suc (f x) \<le> g x) \<Longrightarrow> size_list f xs \<le> sum_list (map g xs)"
proof (induction xs)
  case Nil
  then show ?case by simp
next
  case (Cons a xs)
  have "Suc (f a) \<le> g a" by (rule Cons.prems) simp
  moreover have "size_list f xs \<le> sum_list (map g xs)"
    by (rule Cons.IH) (rule Cons.prems, simp)
  ultimately show ?case by simp
qed

lemma size_lt_length_dumps: "size v < length (dumps l v)"
proof (induction v arbitrary: l)
  case (JInt i)
  obtain c cs where "str i = c # cs" by (rule str_first)
  then show ?case by simp
next
  case (JStr s)
  show ?case by (simp add: encode_basestring_def)
next
  case (JList xs)
  have "size_list size xs \<le> sum_list (map (\<lambda>x. length (dumps (Suc l) x)) xs)"
    using JList by (intro size_list_le_sum) (simp add: Suc_le_eq)
  also have "\<dots> \<le> length (join (CHR '','' # newline_indent (Suc l)) (map (dumps (Suc l)) xs))"
    using length_join [of "map (dumps (Suc l)) xs"] by (simp add: comp_def)
  finally show ?case by simp
next
  case (JDict kvs)
  let ?item = "\<lambda>kv. encode_basestring (fst kv) @ '': '' @ dumps (Suc l) (snd kv)"
  have "size_list (size_prod (\<lambda>x. 0) size) kvs \<le> sum_list (map (\<lambda>kv. length (?item kv)) kvs)"
  proof (intro size_list_le_sum)
    fix kv assume kv: "kv \<in> set kvs"
    obtain k v where p: "kv = (k, v)" by (cases kv)
    from JDict [OF kv, of v "Suc l"] p have "size v < length (dumps (Suc l) v)" by simp
    with p show "Suc (size_prod (\<lambda>x. 0) size kv) \<le> length (?item kv)"
      by (simp add: encode_basestring_def)
  qed
  also have "\<dots> \<le> length (join (CHR '','' # newline_indent (Suc l)) (map ?item kvs))"
    using length_join [of "map ?item kvs"] by (simp add: comp_def)
  finally show ?case by simp
qed

lemma loads_dumps: "wf_json v \<Longrightarrow> loads (dumps 0 v) = Some v"
proof -
  assume wf: "wf_json v"
  have "size v < Suc (length (dumps 0 v))" using size_lt_length_dumps [of v 0] by simp
  from parse_value_dumps [OF wf this, of "[]"]
  have "parse_value (Suc (length (dumps 0 v))) (dumps 0 v) = Some (v, [])"
    by (simp add: value_end_def)
  then show ?thesis by (simp add: loads_def skip_ws_def)
qed

lemma those_Some: "those (map Some xs) = Some xs"
  by (induction xs) simp_all

lemma json_book_book_json: "json_book (book_json b) = Some b"
  by (simp add: json_book_def book_json_def field_def)

lemma json_ids_index: "json_ids (JList (map JInt ids)) = Some ids"
  by (simp add: comp_def those_Some)

lemma json_entries_books:
  "json_entries json_book (JDict (map (\<lambda>kv. (fst kv, book_json (snd kv))) bks)) = Some bks"
  by (simp add: json_entries_def comp_def json_book_book_json those_Some)

lemma json_entries_index:
  "json_entries json_ids (index_json idx) = Some idx"
  by (simp add: json_entries_def index_json_def comp_def json_ids_index those_Some)

lemma json_lib_lib_json: "json_lib (lib_json lib) = Some lib"
  by (simp add: json_lib_def lib_json_def field_def json_entries_books json_entries_index)

lemma wf_lib_json:
  assumes "distinct (map fst (books lib))" "distinct (map fst (years lib))"
    "distinct (map fst (authors lib))"
  shows "wf_json (lib_json lib)"
  using assms by (auto simp: lib_json_def index_json_def book_json_def comp_def)

lemma save_data_not_Nil: "save_data lib \<noteq> []"
  by (simp add: save_data_def lib_json_def)

lemma Library_init_new: "Library_init [] = Some start_data"
  by code_simp

text \<open>
  The round trip of the text layer. For every state that a session reaches from the
  empty library, the text that \<open>save_data\<close> produces, when that same text is what
  \<open>Library.__init__\<close> reads, loads as the same \<open>lib_data\<close>. This does not cover the
  two encodings of main.py: \<open>save_data\<close> opens the file with \<open>encoding="utf-8"\<close> and
  \<open>errors="ignore"\<close>, \<open>Library.__init__\<close> opens it with the default encoding of the
  platform, and neither codec is part of this model.
\<close>

lemma save_then_load_text:
  assumes "run P start_data cmds = Inr (lib, outs)"
  shows "Library_init (save_data lib) = Some lib"
proof -
  from assms have "consistent lib" by (rule consistent_reachable)
  then have "wf_json (lib_json lib)"
    by (intro wf_lib_json) (simp_all add: consistent_def index_ok_def)
  then have "loads (save_data lib) = Some (lib_json lib)"
    unfolding save_data_def by (rule loads_dumps)
  then show ?thesis
    by (simp add: Library_init_def save_data_not_Nil json_lib_lib_json)
qed

lemma save_then_load_text_session:
  "run ascii_builtins start_data session = Inr (session_lib, session_outs) \<and>
   Library_init (save_data session_lib) = Some session_lib"
  using save_then_load_text [OF run_session] run_session by simp

end
